theory Spec2Isabelle
  imports Complex_Main "HOL-Library.Word" "HOL-Library.Log_Nat"
begin

unbundle bit_operations_syntax

section \<open>Runtime values: errors and BigInt arithmetic\<close>

text \<open>
  The program is TypeScript on Node.js. Every exception the runtime can throw inside the
  functions modelled here is a value of \<open>js_error\<close>; a function that may throw returns
  \<open>js_error + 'a\<close>, with \<open>Inl\<close> for the exception.
\<close>

datatype js_error = RangeError | SyntaxError | TypeError | InvalidCharacterError

definition bindR :: "js_error + 'a \<Rightarrow> ('a \<Rightarrow> js_error + 'b) \<Rightarrow> js_error + 'b" where
  "bindR r f = (case r of Inl err \<Rightarrow> Inl err | Inr v \<Rightarrow> f v)"

text \<open>
  BigInt \<open>/\<close> truncates toward zero and BigInt \<open>%\<close> takes the sign of the dividend; both
  throw a RangeError when the divisor is \<open>0n\<close>.
\<close>

definition bigint_div :: "int \<Rightarrow> int \<Rightarrow> js_error + int" where
  "bigint_div a b = (if b = 0 then Inl RangeError else Inr (sgn a * sgn b * (\<bar>a\<bar> div \<bar>b\<bar>)))"

definition bigint_rem :: "int \<Rightarrow> int \<Rightarrow> js_error + int" where
  "bigint_rem a b = (if b = 0 then Inl RangeError else Inr (sgn a * (\<bar>a\<bar> mod \<bar>b\<bar>)))"

lemma bigint_rem_abs_less: "bigint_rem a b = Inr r \<Longrightarrow> \<bar>r\<bar> < \<bar>b\<bar>"
proof -
  assume h: "bigint_rem a b = Inr r"
  then have b: "b \<noteq> 0" and r: "r = sgn a * (\<bar>a\<bar> mod \<bar>b\<bar>)"
    by (auto simp: bigint_rem_def split: if_splits)
  have nonneg: "0 \<le> \<bar>a\<bar> mod \<bar>b\<bar>"
    using b by simp
  have "\<bar>r\<bar> = \<bar>sgn a\<bar> * (\<bar>a\<bar> mod \<bar>b\<bar>)"
    unfolding r abs_mult using nonneg by simp
  also have "\<dots> \<le> 1 * (\<bar>a\<bar> mod \<bar>b\<bar>)"
    using nonneg by (intro mult_right_mono) (simp_all add: abs_sgn_eq)
  also have "\<dots> < \<bar>b\<bar>"
    using b by simp
  finally show ?thesis .
qed

section \<open>Runtime values: strings, number conversions and codecs\<close>

text \<open>
  A JavaScript string is a sequence of 16-bit code units; a Buffer is a sequence of bytes.
  \<open>ascii\<close> writes a string literal.
\<close>

type_synonym jstring = "16 word list"

type_synonym bytes = "8 word list"

definition ascii :: "string \<Rightarrow> jstring" where
  "ascii s = map (\<lambda>c. of_nat (of_char c)) s"

text \<open>
  \<^verbatim>\<open>`${x}`\<close> for a BigInt \<open>x\<close>: its decimal digits, after a minus sign when negative.
\<close>

definition digitChar :: "int \<Rightarrow> 16 word" where
  "digitChar d = word_of_int (48 + d)"

function decimalDigits :: "int \<Rightarrow> jstring" where
  "decimalDigits n =
     (if n < 10 then [digitChar n]
      else decimalDigits (n div 10) @ [digitChar (n mod 10)])"
  by pat_completeness auto
termination
  by (relation "measure nat") auto

declare decimalDigits.simps [simp del]

definition bigint_toString :: "int \<Rightarrow> jstring" where
  "bigint_toString x = (if x < 0 then 45 # decimalDigits (- x) else decimalDigits x)"

text \<open>
  \<^verbatim>\<open>BigInt(s)\<close> for a string (StringToBigInt of ECMA-262): white space and line terminators
  are trimmed at both ends; the empty rest is \<open>0n\<close>; otherwise the rest is decimal digits
  with an optional sign, or \<open>0x\<close>, \<open>0o\<close>, \<open>0b\<close> (either case) and digits of that radix
  without a sign; anything else throws a SyntaxError.
\<close>

definition StrWhiteSpaceChar :: "16 word \<Rightarrow> bool" where
  "StrWhiteSpaceChar c \<longleftrightarrow>
     c \<in> set [0x9, 0xA, 0xB, 0xC, 0xD, 0x20, 0xA0, 0x1680, 0x2028, 0x2029, 0x202F, 0x205F,
              0x3000, 0xFEFF]
     \<or> (0x2000 \<le> c \<and> c \<le> 0x200A)"

definition trimString :: "jstring \<Rightarrow> jstring" where
  "trimString s = rev (dropWhile StrWhiteSpaceChar (rev (dropWhile StrWhiteSpaceChar s)))"

definition digitValue :: "16 word \<Rightarrow> nat option" where
  "digitValue c =
     (let v = unat c in
      if 48 \<le> v \<and> v \<le> 57 then Some (v - 48)
      else if 97 \<le> v \<and> v \<le> 102 then Some (v - 87)
      else if 65 \<le> v \<and> v \<le> 70 then Some (v - 55)
      else None)"

fun parseDigits :: "nat \<Rightarrow> int \<Rightarrow> jstring \<Rightarrow> int option" where
  "parseDigits radix acc [] = Some acc"
| "parseDigits radix acc (c # cs) =
     (case digitValue c of
        None \<Rightarrow> None
      | Some v \<Rightarrow> if v < radix then parseDigits radix (acc * int radix + int v) cs else None)"

definition parseRadix :: "nat \<Rightarrow> jstring \<Rightarrow> js_error + int" where
  "parseRadix radix ds =
     (if ds = [] then Inl SyntaxError
      else (case parseDigits radix 0 ds of
              None \<Rightarrow> Inl SyntaxError
            | Some v \<Rightarrow> Inr v))"

definition BigInt_string :: "jstring \<Rightarrow> js_error + int" where
  "BigInt_string s =
     (case trimString s of
        [] \<Rightarrow> Inr 0
      | c # cs \<Rightarrow>
          if c = 43 then parseRadix 10 cs
          else if c = 45 then bindR (parseRadix 10 cs) (\<lambda>v. Inr (- v))
          else if c = 48 \<and> cs \<noteq> [] \<and> hd cs \<in> set [120, 88] then parseRadix 16 (tl cs)
          else if c = 48 \<and> cs \<noteq> [] \<and> hd cs \<in> set [111, 79] then parseRadix 8 (tl cs)
          else if c = 48 \<and> cs \<noteq> [] \<and> hd cs \<in> set [98, 66] then parseRadix 2 (tl cs)
          else parseRadix 10 (c # cs))"

text \<open>
  \<^verbatim>\<open>s.split(",")\<close>: the fields between the separators, one more than there are separators.
\<close>

fun split :: "16 word \<Rightarrow> jstring \<Rightarrow> jstring list" where
  "split sep [] = [[]]"
| "split sep (c # cs) =
     (if c = sep then [] # split sep cs
      else (case split sep cs of
              [] \<Rightarrow> [[c]]
            | f # fs \<Rightarrow> (c # f) # fs))"

text \<open>\<^verbatim>\<open>array.map(BigInt)\<close>: the first element that throws ends the map.\<close>

fun mapBigInt :: "jstring list \<Rightarrow> js_error + int list" where
  "mapBigInt [] = Inr []"
| "mapBigInt (f # fs) =
     (case BigInt_string f of
        Inl err \<Rightarrow> Inl err
      | Inr v \<Rightarrow> (case mapBigInt fs of Inl err \<Rightarrow> Inl err | Inr vs \<Rightarrow> Inr (v # vs)))"

text \<open>
  \<^verbatim>\<open>Number(x)\<close> for a BigInt: the nearest double, ties to even; \<open>None\<close> stands for an
  infinity. Every double of magnitude \<open>2^53\<close> or more is an integer, so the result is one.
\<close>

definition Number_bigint :: "int \<Rightarrow> int option" where
  "Number_bigint x =
     (let a = \<bar>x\<bar> in
      if a < 2 ^ 53 then Some x
      else
        (let k = nat (bitlen a - 53); q = a div 2 ^ k; r = a mod 2 ^ k; half = 2 ^ (k - 1);
             q' = (if half < r \<or> (r = half \<and> odd q) then q + 1 else q)
         in if 2 ^ 1024 \<le> q' * 2 ^ k then None else Some (sgn x * (q' * 2 ^ k))))"

text \<open>
  \<^verbatim>\<open>String.fromCharCode(v)\<close>: the code unit ToUint16(v), which is \<open>0\<close> for an infinity.
\<close>

definition fromCharCode :: "int option \<Rightarrow> 16 word" where
  "fromCharCode v = (case v of None \<Rightarrow> 0 | Some i \<Rightarrow> word_of_int i)"

text \<open>
  \<^verbatim>\<open>BigInt(Math.floor(u * Number(x)))\<close> for a draw \<open>u\<close> of \<^verbatim>\<open>Math.random()\<close> and a BigInt
  \<open>x\<close>. A draw is a real number; the product is taken exactly. With \<open>Number(x)\<close> infinite
  the product is an infinity or NaN, and \<^verbatim>\<open>BigInt\<close> of it throws a RangeError.
\<close>

definition randomBelow :: "real \<Rightarrow> int \<Rightarrow> js_error + int" where
  "randomBelow u x =
     (case Number_bigint x of
        None \<Rightarrow> Inl RangeError
      | Some N \<Rightarrow> Inr \<lfloor>u * of_int N\<rfloor>)"

subsection \<open>Base64 and UTF-8\<close>

text \<open>
  \<^verbatim>\<open>buffer.toString("base64")\<close>: RFC 4648 with the standard alphabet and padding.
\<close>

definition base64Char :: "nat \<Rightarrow> 16 word" where
  "base64Char i =
     (if i < 26 then of_nat (65 + i)
      else if i < 52 then of_nat (71 + i)
      else if i < 62 then of_nat (i - 4)
      else if i = 62 then 43
      else 47)"

fun base64Encode :: "bytes \<Rightarrow> jstring" where
  "base64Encode [] = []"
| "base64Encode [a] =
     (let x = unat a in [base64Char (x div 4), base64Char (x mod 4 * 16), 61, 61])"
| "base64Encode [a, b] =
     (let x = unat a; y = unat b in
      [base64Char (x div 4), base64Char (x mod 4 * 16 + y div 16), base64Char (y mod 16 * 4), 61])"
| "base64Encode (a # b # c # rest) =
     (let x = unat a; y = unat b; z = unat c in
      [base64Char (x div 4), base64Char (x mod 4 * 16 + y div 16),
       base64Char (y mod 16 * 4 + z div 64), base64Char (z mod 64)]) @ base64Encode rest"

text \<open>
  \<^verbatim>\<open>Buffer.from(s, "base64")\<close>: Node's decoder never throws. It reads the characters of
  both alphabets (\<open>+ /\<close> and \<open>- _\<close>), skips every other character and stops at the first
  \<open>=\<close>; two sextets give one byte, three give two, four give three.
\<close>

definition unbase64 :: "16 word \<Rightarrow> nat option" where
  "unbase64 c =
     (let v = unat c in
      if 65 \<le> v \<and> v \<le> 90 then Some (v - 65)
      else if 97 \<le> v \<and> v \<le> 122 then Some (v - 71)
      else if 48 \<le> v \<and> v \<le> 57 then Some (v + 4)
      else if v = 43 \<or> v = 45 then Some 62
      else if v = 47 \<or> v = 95 then Some 63
      else None)"

fun sextetsBeforePad :: "jstring \<Rightarrow> nat list" where
  "sextetsBeforePad [] = []"
| "sextetsBeforePad (c # cs) =
     (if c = 61 then []
      else (case unbase64 c of
              None \<Rightarrow> sextetsBeforePad cs
            | Some v \<Rightarrow> v # sextetsBeforePad cs))"

fun sextetsToBytes :: "nat list \<Rightarrow> bytes" where
  "sextetsToBytes (s1 # s2 # s3 # s4 # rest) =
     [of_nat (s1 * 4 + s2 div 16), of_nat (s2 mod 16 * 16 + s3 div 4), of_nat (s3 mod 4 * 64 + s4)]
     @ sextetsToBytes rest"
| "sextetsToBytes [s1, s2, s3] =
     [of_nat (s1 * 4 + s2 div 16), of_nat (s2 mod 16 * 16 + s3 div 4)]"
| "sextetsToBytes [s1, s2] = [of_nat (s1 * 4 + s2 div 16)]"
| "sextetsToBytes [s1] = []"
| "sextetsToBytes [] = []"

definition bufferFromBase64 :: "jstring \<Rightarrow> bytes" where
  "bufferFromBase64 s = sextetsToBytes (sextetsBeforePad s)"

text \<open>
  \<^verbatim>\<open>Buffer.from(s)\<close>: the UTF-8 encoding of the string; a surrogate without its partner is
  encoded as U+FFFD.
\<close>

fun utf8Encode :: "jstring \<Rightarrow> bytes" where
  "utf8Encode [] = []"
| "utf8Encode (c # cs) =
     (let v = unat c in
      if v < 0x80 then of_nat v # utf8Encode cs
      else if v < 0x800 then of_nat (0xC0 + v div 64) # of_nat (0x80 + v mod 64) # utf8Encode cs
      else if 0xD800 \<le> v \<and> v < 0xDC00 then
        (case cs of
           [] \<Rightarrow> [0xEF, 0xBF, 0xBD]
         | d # ds \<Rightarrow>
             (let w = unat d in
              if 0xDC00 \<le> w \<and> w < 0xE000 then
                (let cp = 0x10000 + (v - 0xD800) * 1024 + (w - 0xDC00) in
                 of_nat (0xF0 + cp div 262144) # of_nat (0x80 + cp div 4096 mod 64) #
                 of_nat (0x80 + cp div 64 mod 64) # of_nat (0x80 + cp mod 64) # utf8Encode ds)
              else 0xEF # 0xBF # 0xBD # utf8Encode cs))
      else if 0xDC00 \<le> v \<and> v < 0xE000 then 0xEF # 0xBF # 0xBD # utf8Encode cs
      else of_nat (0xE0 + v div 4096) # of_nat (0x80 + v div 64 mod 64) #
           of_nat (0x80 + v mod 64) # utf8Encode cs)"

text \<open>
  \<^verbatim>\<open>buffer.toString()\<close>: the UTF-8 decoding, with U+FFFD for every ill-formed sequence
  (one per maximal subpart) and a surrogate pair for a code point past U+FFFF. The state
  is the number of continuation bytes needed and seen, the code point so far and the
  bounds of the next byte.
\<close>

definition codeUnits :: "nat \<Rightarrow> jstring" where
  "codeUnits cp =
     (if cp < 0x10000 then [of_nat cp]
      else [of_nat (0xD800 + (cp - 0x10000) div 1024), of_nat (0xDC00 + (cp - 0x10000) mod 1024)])"

fun utf8Decode_from :: "nat \<Rightarrow> nat \<Rightarrow> nat \<Rightarrow> nat \<Rightarrow> nat \<Rightarrow> bytes \<Rightarrow> jstring" where
  "utf8Decode_from needed seen cp lower upper [] = (if needed \<noteq> 0 then [0xFFFD] else [])"
| "utf8Decode_from needed seen cp lower upper (byte # bs) =
     (let b = unat byte in
      if needed = 0 then
        (if b < 0x80 then of_nat b # utf8Decode_from 0 0 0 0x80 0xBF bs
         else if 0xC2 \<le> b \<and> b \<le> 0xDF then utf8Decode_from 1 0 (b - 0xC0) 0x80 0xBF bs
         else if 0xE0 \<le> b \<and> b \<le> 0xEF then
           utf8Decode_from 2 0 (b - 0xE0) (if b = 0xE0 then 0xA0 else 0x80)
             (if b = 0xED then 0x9F else 0xBF) bs
         else if 0xF0 \<le> b \<and> b \<le> 0xF4 then
           utf8Decode_from 3 0 (b - 0xF0) (if b = 0xF0 then 0x90 else 0x80)
             (if b = 0xF4 then 0x8F else 0xBF) bs
         else 0xFFFD # utf8Decode_from 0 0 0 0x80 0xBF bs)
      else if b < lower \<or> upper < b then 0xFFFD # utf8Decode_from 0 0 0 0x80 0xBF (byte # bs)
      else if seen + 1 = needed then
        codeUnits (cp * 64 + (b - 0x80)) @ utf8Decode_from 0 0 0 0x80 0xBF bs
      else utf8Decode_from needed (seen + 1) (cp * 64 + (b - 0x80)) 0x80 0xBF bs)"

definition utf8Decode :: "bytes \<Rightarrow> jstring" where
  "utf8Decode bs = utf8Decode_from 0 0 0 0x80 0xBF bs"

text \<open>
  \<^verbatim>\<open>atob(s)\<close>: the forgiving-base64 decode of the WHATWG Infra standard. ASCII white space
  is removed; of a length divisible by 4, one or two final \<open>=\<close> are removed; a length that
  leaves remainder 1, or any character outside the standard alphabet, throws an
  InvalidCharacterError. The result has one code unit per byte.
\<close>

definition asciiWhitespace :: "16 word \<Rightarrow> bool" where
  "asciiWhitespace c \<longleftrightarrow> c \<in> set [0x9, 0xA, 0xC, 0xD, 0x20]"

definition stripPadding :: "jstring \<Rightarrow> jstring" where
  "stripPadding s =
     (if length s mod 4 = 0 \<and> s \<noteq> [] \<and> last s = 61 then
        (if butlast s \<noteq> [] \<and> last (butlast s) = 61 then butlast (butlast s) else butlast s)
      else s)"

definition standardAlphabet :: "16 word \<Rightarrow> bool" where
  "standardAlphabet c \<longleftrightarrow>
     (let v = unat c in
      (65 \<le> v \<and> v \<le> 90) \<or> (97 \<le> v \<and> v \<le> 122) \<or> (48 \<le> v \<and> v \<le> 57) \<or> v = 43 \<or> v = 47)"

definition atob :: "jstring \<Rightarrow> js_error + jstring" where
  "atob s =
     (let d = stripPadding (filter (\<lambda>c. \<not> asciiWhitespace c) s) in
      if length d mod 4 = 1 then Inl InvalidCharacterError
      else if \<not> list_all standardAlphabet d then Inl InvalidCharacterError
      else Inr (map ucast (sextetsToBytes (List.map_filter unbase64 d))))"

section \<open>Modular arithmetic primitives of class RSA\<close>

text \<open>
  \<^verbatim>\<open>gcd(a, b)\<close>: \<^verbatim>\<open>while (b) { const t = b; b = a % b; a = t; } return a;\<close>
\<close>

function gcd_RSA :: "int \<Rightarrow> int \<Rightarrow> js_error + int" where
  "gcd_RSA a b =
     (if b \<noteq> 0 then
        (case bigint_rem a b of
           Inl err \<Rightarrow> Inl err
         | Inr r \<Rightarrow> gcd_RSA b r)
      else Inr a)"
  by pat_completeness auto
termination
  by (relation "measure (\<lambda>(a, b). nat \<bar>b\<bar>)")
    (auto dest: bigint_rem_abs_less)

declare gcd_RSA.simps [simp del]

text \<open>
  \<^verbatim>\<open>modPow(base, exponent, modulus)\<close>: the loop
  \<^verbatim>\<open>while (exponent > 0n) { if (exponent & 1n) result = (result * base) % modulus;
  base = (base * base) % modulus; exponent >>= 1n; }\<close>
  with the state \<open>(result, base, exponent)\<close>.
\<close>

function modPow_loop :: "int \<Rightarrow> int \<Rightarrow> int \<Rightarrow> int \<Rightarrow> js_error + int" where
  "modPow_loop result base exponent modulus =
     (if 0 < exponent then
        (case (if exponent AND 1 \<noteq> 0 then bigint_rem (result * base) modulus else Inr result) of
           Inl err \<Rightarrow> Inl err
         | Inr result' \<Rightarrow>
             (case bigint_rem (base * base) modulus of
                Inl err \<Rightarrow> Inl err
              | Inr base' \<Rightarrow> modPow_loop result' base' (drop_bit 1 exponent) modulus))
      else Inr result)"
  by pat_completeness auto
termination
  by (relation "measure (\<lambda>(result, base, exponent, modulus). nat exponent)")
    (auto simp: drop_bit_eq_div)

declare modPow_loop.simps [simp del]

definition modPow :: "int \<Rightarrow> int \<Rightarrow> int \<Rightarrow> js_error + int" where
  "modPow base exponent modulus =
     (case bigint_rem base modulus of
        Inl err \<Rightarrow> Inl err
      | Inr base' \<Rightarrow> modPow_loop 1 base' exponent modulus)"

text \<open>
  \<^verbatim>\<open>modInverse(a, m)\<close>: the loop
  \<^verbatim>\<open>while (a > 1n) { const q = a / m; let t = m; m = a % m; a = t; t = x0;
  x0 = x1 - q * x0; x1 = t; }\<close> with the state \<open>(a, m, x0, x1)\<close>; it returns \<open>x1\<close>.
\<close>

function modInverse_loop :: "int \<Rightarrow> int \<Rightarrow> int \<Rightarrow> int \<Rightarrow> js_error + int" where
  "modInverse_loop a m x0 x1 =
     (if 1 < a then
        (case bigint_div a m of
           Inl err \<Rightarrow> Inl err
         | Inr q \<Rightarrow>
             (case bigint_rem a m of
                Inl err \<Rightarrow> Inl err
              | Inr r \<Rightarrow> modInverse_loop m r (x1 - q * x0) x0))
      else Inr x1)"
  by pat_completeness auto
termination
  by (relation "measure (\<lambda>(a, m, x0, x1). nat \<bar>m\<bar>)")
    (auto dest: bigint_rem_abs_less)

declare modInverse_loop.simps [simp del]

definition modInverse :: "int \<Rightarrow> int \<Rightarrow> js_error + int" where
  "modInverse a m =
     (let m0 = m in
      if m = 1 then Inr 0
      else (case modInverse_loop a m 0 1 of
              Inl err \<Rightarrow> Inl err
            | Inr x1 \<Rightarrow> Inr (if x1 < 0 then x1 + m0 else x1)))"

definition PUBLIC_EXPONENT :: int where
  "PUBLIC_EXPONENT = 65537"

section \<open>Prime generation and the Miller-Rabin test\<close>

text \<open>
  \<^verbatim>\<open>Math.random()\<close> is an input of the model: a function that draws takes the list of the
  draws still to come and returns the rest. \<open>Starved\<close> is the outcome of a run that needs
  more draws, or more turns of an unbounded loop, than it was given: the source would
  still be running.
\<close>

datatype 'a outcome = Returns 'a "real list" | Throws js_error | Starved

definition bindO :: "'a outcome \<Rightarrow> ('a \<Rightarrow> real list \<Rightarrow> 'b outcome) \<Rightarrow> 'b outcome" where
  "bindO r f = (case r of Returns v draws \<Rightarrow> f v draws | Throws err \<Rightarrow> Throws err | Starved \<Rightarrow> Starved)"

definition liftR :: "js_error + 'a \<Rightarrow> real list \<Rightarrow> 'a outcome" where
  "liftR r draws = (case r of Inl err \<Rightarrow> Throws err | Inr v \<Rightarrow> Returns v draws)"

text \<open>
  \<^verbatim>\<open>generateRandomOddNumber(bitLength)\<close>: \<^verbatim>\<open>let randomBits = "1";
  for (let i = 1; i < bitLength; i++) randomBits += Math.random() < 0.5 ? "0" : "1";
  return BigInt("0b" + randomBits);\<close> The bit length is a JavaScript number (the caller
  passes \<^verbatim>\<open>bitLength / 2\<close>), here a real.
\<close>

function randomBits_loop :: "real \<Rightarrow> nat \<Rightarrow> jstring \<Rightarrow> real list \<Rightarrow> jstring outcome" where
  "randomBits_loop bitLength i randomBits draws =
     (if real i < bitLength then
        (case draws of
           [] \<Rightarrow> Starved
         | u # rest \<Rightarrow>
             randomBits_loop bitLength (i + 1) (randomBits @ (if u < 0.5 then ascii ''0'' else ascii ''1'')) rest)
      else Returns randomBits draws)"
  by pat_completeness auto
termination
  by (relation "measure (\<lambda>(bitLength, i, randomBits, draws). length draws)") auto

declare randomBits_loop.simps [simp del]

definition generateRandomOddNumber :: "real \<Rightarrow> real list \<Rightarrow> int outcome" where
  "generateRandomOddNumber bitLength draws =
     bindO (randomBits_loop bitLength 1 (ascii ''1'') draws)
       (\<lambda>randomBits rest. liftR (BigInt_string (ascii ''0b'' @ randomBits)) rest)"

text \<open>
  \<^verbatim>\<open>millerRabinPrimalityTest(n, k = 10)\<close>. First the loop
  \<^verbatim>\<open>while (r % 2n === 0n) { r >>= 1n; s += 1n; }\<close>; from \<open>r = 0\<close> it would never end,
  which is \<open>None\<close> (the test only runs it from \<open>n - 1 \<ge> 4\<close>).
\<close>

function factorTwos :: "int \<Rightarrow> int \<Rightarrow> (int \<times> int) option" where
  "factorTwos r s =
     (if bigint_rem r 2 = Inr 0 then
        (if r = 0 then None else factorTwos (drop_bit 1 r) (s + 1))
      else Some (r, s))"
  by pat_completeness auto
termination
proof (relation "measure (\<lambda>(r, s). nat \<bar>r\<bar>)")
  show "wf (measure (\<lambda>(r, s). nat \<bar>r\<bar>))" by simp
next
  fix r s :: int
  assume "bigint_rem r 2 = Inr 0" and "r \<noteq> 0"
  then have "\<bar>r\<bar> mod 2 = 0"
    by (simp add: bigint_rem_def sgn_if split: if_splits)
  then have "even r" by presburger
  with \<open>r \<noteq> 0\<close> have "\<bar>r div 2\<bar> < \<bar>r\<bar>" by presburger
  then show "((drop_bit 1 r, s + 1), (r, s)) \<in> measure (\<lambda>(r, s). nat \<bar>r\<bar>)"
    by (simp add: drop_bit_eq_div)
qed

declare factorTwos.simps [simp del]

text \<open>
  The witness of a round:
  \<^verbatim>\<open>const minRandom = n > 10n ? n - 10n : 2n;
  const a = BigInt(Math.floor(Math.random() * Number(n - minRandom))) + minRandom;\<close>
\<close>

definition minRandom :: "int \<Rightarrow> int" where
  "minRandom n = (if 10 < n then n - 10 else 2)"

definition drawWitness :: "int \<Rightarrow> real \<Rightarrow> js_error + int" where
  "drawWitness n u = bindR (randomBelow u (n - minRandom n)) (\<lambda>x. Inr (x + minRandom n))"

text \<open>
  The inner loop \<^verbatim>\<open>while (j < s && x !== n - 1n) { x = RSA.modPow(x, 2n, n);
  if (x === 1n) return false; j += 1n; }\<close>: \<open>None\<close> when it leaves the test with
  \<^verbatim>\<open>return false\<close>, else the last \<open>x\<close>.
\<close>

function squaring_loop :: "int \<Rightarrow> int \<Rightarrow> int \<Rightarrow> int \<Rightarrow> js_error + int option" where
  "squaring_loop n s j x =
     (if j < s \<and> x \<noteq> n - 1 then
        (case modPow x 2 n of
           Inl err \<Rightarrow> Inl err
         | Inr x' \<Rightarrow> if x' = 1 then Inr None else squaring_loop n s (j + 1) x')
      else Inr (Some x))"
  by pat_completeness auto
termination
  by (relation "measure (\<lambda>(n, s, j, x). nat (s - j))") auto

declare squaring_loop.simps [simp del]

text \<open>One round: \<open>False\<close> when the round returns false from the test.\<close>

definition millerRabinRound :: "int \<Rightarrow> int \<Rightarrow> int \<Rightarrow> real \<Rightarrow> js_error + bool" where
  "millerRabinRound n r s u =
     (case drawWitness n u of
        Inl err \<Rightarrow> Inl err
      | Inr a \<Rightarrow>
          (case modPow a r n of
             Inl err \<Rightarrow> Inl err
           | Inr x \<Rightarrow>
               if x \<noteq> 1 \<and> x \<noteq> n - 1 then
                 (case squaring_loop n s 1 x of
                    Inl err \<Rightarrow> Inl err
                  | Inr None \<Rightarrow> Inr False
                  | Inr (Some x') \<Rightarrow> if x' \<noteq> n - 1 then Inr False else Inr True)
               else Inr True))"

text \<open>\<^verbatim>\<open>for (let i = 0; i < k; i++) { ... }  return true;\<close>\<close>

function rounds_loop :: "int \<Rightarrow> int \<Rightarrow> int \<Rightarrow> nat \<Rightarrow> nat \<Rightarrow> real list \<Rightarrow> bool outcome" where
  "rounds_loop n r s i k draws =
     (if i < k then
        (case draws of
           [] \<Rightarrow> Starved
         | u # rest \<Rightarrow>
             (case millerRabinRound n r s u of
                Inl err \<Rightarrow> Throws err
              | Inr ok \<Rightarrow> if ok then rounds_loop n r s (i + 1) k rest else Returns False rest))
      else Returns True draws)"
  by pat_completeness auto
termination
  by (relation "measure (\<lambda>(n, r, s, i, k, draws). k - i)") auto

declare rounds_loop.simps [simp del]

definition millerRabinPrimalityTest :: "int \<Rightarrow> nat \<Rightarrow> real list \<Rightarrow> bool outcome" where
  "millerRabinPrimalityTest n k draws =
     (if n < 2 then Returns False draws
      else if n = 2 \<or> n = 3 then Returns True draws
      else if bigint_rem n 2 = Inr 0 then Returns False draws
      else (case factorTwos (n - 1) 0 of
              None \<Rightarrow> Starved
            | Some (r, s) \<Rightarrow> rounds_loop n r s 0 k draws))"

text \<open>
  \<^verbatim>\<open>generatePrime(bitLength)\<close>: \<^verbatim>\<open>do { prime = RSA.generateRandomOddNumber(bitLength); }
  while (!RSA.millerRabinPrimalityTest(prime));\<close> The loop has no bound; \<open>fuel\<close> is the
  number of candidates the run may try.
\<close>

fun generatePrime :: "nat \<Rightarrow> real \<Rightarrow> real list \<Rightarrow> int outcome" where
  "generatePrime 0 bitLength draws = Starved"
| "generatePrime (Suc fuel) bitLength draws =
     bindO (generateRandomOddNumber bitLength draws) (\<lambda>prime draws1.
     bindO (millerRabinPrimalityTest prime 10 draws1) (\<lambda>ok draws2.
       if \<not> ok then generatePrime fuel bitLength draws2 else Returns prime draws2))"

section \<open>Key pairs and the cipher\<close>

record keypair =
  publicKey :: jstring
  privateKey :: jstring

text \<open>
  \<^verbatim>\<open>let e = RSA.PUBLIC_EXPONENT; while (RSA.gcd(e, phi) !== 1n)
  { e = BigInt(Math.floor(Math.random() * Number(phi))); }\<close>: every turn of the loop takes
  one draw.
\<close>

fun exponent_loop :: "int \<Rightarrow> int \<Rightarrow> real list \<Rightarrow> int outcome" where
  "exponent_loop e phi draws =
     (case gcd_RSA e phi of
        Inl err \<Rightarrow> Throws err
      | Inr g \<Rightarrow>
          if g \<noteq> 1 then
            (case draws of
               [] \<Rightarrow> Starved
             | u # rest \<Rightarrow>
                 (case randomBelow u phi of
                    Inl err \<Rightarrow> Throws err
                  | Inr e' \<Rightarrow> exponent_loop e' phi rest))
          else Returns e draws)"

declare exponent_loop.simps [simp del]

text \<open>
  \<^verbatim>\<open>Buffer.from(`${x},${n}`).toString("base64")\<close>, the token of a key.
\<close>

definition keyToken :: "int \<Rightarrow> int \<Rightarrow> jstring" where
  "keyToken x n = base64Encode (utf8Encode (bigint_toString x @ ascii '','' @ bigint_toString n))"

definition generateKeys :: "nat \<Rightarrow> real \<Rightarrow> real list \<Rightarrow> keypair outcome" where
  "generateKeys fuel bitLength draws =
     bindO (generatePrime fuel (bitLength / 2) draws) (\<lambda>p draws1.
     bindO (generatePrime fuel (bitLength / 2) draws1) (\<lambda>q draws2.
       let n = p * q; phi = (p - 1) * (q - 1) in
       bindO (exponent_loop PUBLIC_EXPONENT phi draws2) (\<lambda>e draws3.
       bindO (liftR (modInverse e phi) draws3) (\<lambda>d draws4.
         Returns \<lparr>publicKey = keyToken e n, privateKey = keyToken d n\<rparr> draws4))))"

text \<open>
  \<^verbatim>\<open>const [e, n] = Buffer.from(key, "base64").toString().split(",").map(BigInt);\<close>
  A field that is missing is \<^verbatim>\<open>undefined\<close>, here \<open>None\<close>.
\<close>

definition keyFields :: "jstring \<Rightarrow> js_error + (int option \<times> int option)" where
  "keyFields key =
     bindR (mapBigInt (split 44 (utf8Decode (bufferFromBase64 key))))
       (\<lambda>fields. Inr (if 0 < length fields then Some (fields ! 0) else None,
                      if 1 < length fields then Some (fields ! 1) else None))"

text \<open>
  \<open>modPow\<close> as the workers call it, on fields that may be \<^verbatim>\<open>undefined\<close>: \<^verbatim>\<open>%\<close> of a BigInt
  and \<^verbatim>\<open>undefined\<close> throws a TypeError, and \<^verbatim>\<open>undefined > 0n\<close> is false.
\<close>

definition modPow_fields :: "int \<Rightarrow> int option \<Rightarrow> int option \<Rightarrow> js_error + int" where
  "modPow_fields base exponent modulus =
     (case modulus of
        None \<Rightarrow> Inl TypeError
      | Some n \<Rightarrow>
          (case exponent of
             None \<Rightarrow> bindR (bigint_rem base n) (\<lambda>base'. Inr 1)
           | Some e \<Rightarrow> modPow base e n))"

text \<open>
  \<^verbatim>\<open>encryptWorker(message, publicKey)\<close>: the loop appends \<^verbatim>\<open>`${encryptedChar},`\<close> for every
  code unit of the message; \<^verbatim>\<open>encrypted.slice(0, -1)\<close> drops the last character.
\<close>

fun encrypt_loop :: "int option \<Rightarrow> int option \<Rightarrow> jstring \<Rightarrow> jstring \<Rightarrow> js_error + jstring" where
  "encrypt_loop e n [] encrypted = Inr encrypted"
| "encrypt_loop e n (c # message) encrypted =
     (let charCode = uint c in
      case modPow_fields charCode e n of
        Inl err \<Rightarrow> Inl err
      | Inr encryptedChar \<Rightarrow>
          encrypt_loop e n message (encrypted @ bigint_toString encryptedChar @ ascii '',''))"

definition encryptWorker :: "jstring \<Rightarrow> jstring \<Rightarrow> js_error + jstring" where
  "encryptWorker message publicKey' =
     bindR (keyFields publicKey') (\<lambda>(e, n).
     bindR (encrypt_loop e n message []) (\<lambda>encrypted. Inr (butlast encrypted)))"

text \<open>
  \<^verbatim>\<open>decryptWorker(encryptedMessage, privateKey)\<close>: one character
  \<^verbatim>\<open>String.fromCharCode(Number(RSA.modPow(encryptedChar, d, n)))\<close> for every field of the
  message.
\<close>

fun decrypt_loop :: "int option \<Rightarrow> int option \<Rightarrow> int list \<Rightarrow> jstring \<Rightarrow> js_error + jstring" where
  "decrypt_loop d n [] decrypted = Inr decrypted"
| "decrypt_loop d n (encryptedChar # encryptedChars) decrypted =
     (case modPow_fields encryptedChar d n of
        Inl err \<Rightarrow> Inl err
      | Inr v \<Rightarrow>
          (let charCode = Number_bigint v in
           decrypt_loop d n encryptedChars (decrypted @ [fromCharCode charCode])))"

definition decryptWorker :: "jstring \<Rightarrow> jstring \<Rightarrow> js_error + jstring" where
  "decryptWorker encryptedMessage privateKey' =
     bindR (keyFields privateKey') (\<lambda>(d, n).
     bindR (mapBigInt (split 44 encryptedMessage)) (\<lambda>encryptedChars.
       decrypt_loop d n encryptedChars []))"

section \<open>The console's key check\<close>

text \<open>
  \<^verbatim>\<open>validateKey(key)\<close>: \<^verbatim>\<open>const unzipedKey = atob(key);
  const keyDatas = unzipedKey.split(","); if (keyDatas.length < 2) return false;
  return true;\<close>
\<close>

definition validateKey :: "jstring \<Rightarrow> js_error + bool" where
  "validateKey key =
     bindR (atob key) (\<lambda>unzipedKey.
       let keyDatas = split 44 unzipedKey in
       if length keyDatas < 2 then Inr False else Inr True)"

section \<open>Notions of the statements and the proofs\<close>

text \<open>
  Primality, as the round trip needs it: \<open>p > 1\<close> has no divisor from \<open>2\<close> to \<open>p - 1\<close>.
  \<open>millerRabinPrimalityTest\<close> is the program's probabilistic stand-in for it.
\<close>

definition is_prime :: "int \<Rightarrow> bool" where
  "is_prime p \<longleftrightarrow> 1 < p \<and> (\<forall>d \<in> set [2..p - 1]. \<not> d dvd p)"

text \<open>
  The ciphertext unit of a code unit \<open>c\<close> under the exponent field \<open>e\<close> and a modulus \<open>n > 1\<close>:
  what \<open>modPow_fields (uint c) e (Some n)\<close> returns (\<open>modPow_fields_unit\<close>).
\<close>

definition cipherUnit :: "int option \<Rightarrow> int \<Rightarrow> 16 word \<Rightarrow> int" where
  "cipherUnit e n c =
     (case e of None \<Rightarrow> 1 | Some e' \<Rightarrow> if 0 < e' then uint c ^ nat e' mod n else 1)"

text \<open>
  The invariant of the loop of \<open>modInverse\<close>, started from \<open>(a0, m0, 0, 1)\<close>: the pair
  \<open>(a, m)\<close> is coprime, \<open>x1\<close> and \<open>x0\<close> are the coefficients of \<open>a0\<close> for \<open>a\<close> and \<open>m\<close> modulo
  \<open>m0\<close>, they alternate in sign, and \<open>a * \<bar>x0\<bar> + m * \<bar>x1\<bar> = m0\<close>.
\<close>

definition inv_state :: "int \<Rightarrow> int \<Rightarrow> int \<Rightarrow> int \<Rightarrow> int \<Rightarrow> int \<Rightarrow> bool" where
  "inv_state a0 m0 a m x0 x1 \<longleftrightarrow>
     0 \<le> m \<and> coprime a m \<and>
     (x1 * a0) mod m0 = a mod m0 \<and> (x0 * a0) mod m0 = m mod m0 \<and>
     a * \<bar>x0\<bar> + m * \<bar>x1\<bar> = m0 \<and>
     ((x0 \<le> 0 \<and> 0 \<le> x1) \<or> (0 \<le> x0 \<and> x1 \<le> 0))"

text \<open>The characters \<open>0\<close> to \<open>9\<close>, for the lemmas on printing and parsing.\<close>

definition isDigit :: "16 word \<Rightarrow> bool" where
  "isDigit c \<longleftrightarrow> 48 \<le> uint c \<and> uint c \<le> 57"

section \<open>Properties of the modular arithmetic\<close>

lemma bigint_rem_nonneg: "0 \<le> a \<Longrightarrow> 0 < b \<Longrightarrow> bigint_rem a b = Inr (a mod b)"
  by (cases "a = 0") (simp_all add: bigint_rem_def)

lemma modPow_loop_nonneg:
  "0 \<le> result \<Longrightarrow> 0 \<le> base \<Longrightarrow> 0 < modulus \<Longrightarrow>
   modPow_loop result base exponent modulus =
     Inr (if 0 < exponent then (result * base ^ nat exponent) mod modulus else result)"
proof (induction result base exponent modulus rule: modPow_loop.induct)
  case (1 result base exponent modulus)
  show ?case
  proof (cases "0 < exponent")
    case False
    then show ?thesis by (simp add: modPow_loop.simps [of result base exponent modulus])
  next
    case True
    define result' where "result' = (if exponent AND 1 \<noteq> 0 then (result * base) mod modulus else result)"
    define base' where "base' = (base * base) mod modulus"
    have r: "(if exponent AND 1 \<noteq> 0 then bigint_rem (result * base) modulus else Inr result) = Inr result'"
      using 1(2,3,4) by (simp add: result'_def bigint_rem_nonneg)
    have b: "bigint_rem (base * base) modulus = Inr base'"
      using 1(3,4) by (simp add: base'_def bigint_rem_nonneg)
    have r0: "0 \<le> result'" and b0: "0 \<le> base'"
      using 1(2,3,4) by (simp_all add: result'_def base'_def)
    have IH: "modPow_loop result' base' (drop_bit 1 exponent) modulus =
       Inr (if 0 < drop_bit 1 exponent then (result' * base' ^ nat (drop_bit 1 exponent)) mod modulus else result')"
      using "1.IH" [OF True r b r0 b0 1(4)] .
    have step: "modPow_loop result base exponent modulus = modPow_loop result' base' (drop_bit 1 exponent) modulus"
      using True r b by (subst modPow_loop.simps) simp
    have e: "exponent = 2 * (exponent div 2) + exponent mod 2" by simp
    have odd_iff: "exponent AND 1 \<noteq> 0 \<longleftrightarrow> exponent mod 2 = 1"
      by (simp add: and_one_eq)
    define k where "k = nat (exponent div 2)"
    define b where "b = nat (exponent mod 2)"
    have ne: "nat exponent = 2 * k + b"
    proof -
      have "0 \<le> exponent div 2" "0 \<le> exponent mod 2"
        using True by simp_all
      then have "int (2 * k + b) = 2 * (exponent div 2) + exponent mod 2"
        unfolding k_def b_def by simp
      then have "int (2 * k + b) = exponent" by simp
      then show ?thesis by linarith
    qed
    have b01: "b = 0 \<or> b = 1"
      unfolding b_def by (cases "exponent mod 2 = 0") auto
    have rb: "result' mod modulus = (result * base ^ b) mod modulus"
      using b01 odd_iff unfolding result'_def b_def by auto
    have bk: "base' ^ k mod modulus = base ^ (2 * k) mod modulus"
      unfolding base'_def by (simp add: power_mod power_mult power2_eq_square)
    have main: "(result' * base' ^ k) mod modulus = (result * base ^ nat exponent) mod modulus"
    proof -
      have "(result' * base' ^ k) mod modulus = ((result' mod modulus) * (base' ^ k mod modulus)) mod modulus"
        by (simp add: mod_mult_eq)
      also have "\<dots> = (((result * base ^ b) mod modulus) * (base ^ (2 * k) mod modulus)) mod modulus"
        by (simp only: rb bk)
      also have "\<dots> = ((result * base ^ b) * base ^ (2 * k)) mod modulus"
        by (simp add: mod_mult_eq)
      also have "(result * base ^ b) * base ^ (2 * k) = result * base ^ nat exponent"
        unfolding ne by (simp add: power_add mult_ac)
      finally show ?thesis .
    qed
    show ?thesis
    proof (cases "0 < drop_bit 1 exponent")
      case True
      then show ?thesis
        using step IH main \<open>0 < exponent\<close> by (simp add: k_def drop_bit_eq_div)
    next
      case False
      then have k0: "k = 0"
        by (simp add: k_def drop_bit_eq_div)
      then have "exponent = 1"
        using ne b01 \<open>0 < exponent\<close> by auto
      then show ?thesis
        using step IH False 1(2,3,4) by (simp add: result'_def)
    qed
  qed
qed


lemma modPow_nonneg:
  assumes "0 \<le> base" and "0 < modulus"
  shows "modPow base exponent modulus =
           Inr (if 0 < exponent then base ^ nat exponent mod modulus else 1)"
proof -
  have "modPow base exponent modulus = modPow_loop 1 (base mod modulus) exponent modulus"
    using assms by (simp add: modPow_def bigint_rem_nonneg)
  also have "\<dots> = Inr (if 0 < exponent then (1 * (base mod modulus) ^ nat exponent) mod modulus else 1)"
    using assms by (intro modPow_loop_nonneg) simp_all
  finally show ?thesis
    by (simp add: power_mod)
qed

lemma modPow_loop_returns:
  "modulus \<noteq> 0 \<Longrightarrow> \<exists>r. modPow_loop result base exponent modulus = Inr r"
proof (induction result base exponent modulus rule: modPow_loop.induct)
  case (1 result base exponent modulus)
  show ?case
  proof (cases "0 < exponent")
    case False
    then show ?thesis by (simp add: modPow_loop.simps [of result base exponent modulus])
  next
    case True
    have "\<exists>result'. (if exponent AND 1 \<noteq> 0 then bigint_rem (result * base) modulus else Inr result) = Inr result'"
      using 1(2) by (simp add: bigint_rem_def)
    then obtain result' where r: "(if exponent AND 1 \<noteq> 0 then bigint_rem (result * base) modulus else Inr result) = Inr result'"
      by blast
    have "\<exists>base'. bigint_rem (base * base) modulus = Inr base'"
      using 1(2) by (simp add: bigint_rem_def)
    then obtain base' where b: "bigint_rem (base * base) modulus = Inr base'"
      by blast
    have "modPow_loop result base exponent modulus = modPow_loop result' base' (drop_bit 1 exponent) modulus"
      using True r b by (subst modPow_loop.simps) simp
    then show ?thesis
      using "1.IH" [OF True r b 1(2)] by simp
  qed
qed

lemma modPow_zero_modulus: "modPow base exponent 0 = Inl RangeError"
  by (simp add: modPow_def bigint_rem_def)

lemma modPow_returns: "modulus \<noteq> 0 \<Longrightarrow> \<exists>r. modPow base exponent modulus = Inr r"
  using modPow_loop_returns by (simp add: modPow_def bigint_rem_def)

lemma modPow_nonpos_exponent:
  "modulus \<noteq> 0 \<Longrightarrow> exponent \<le> 0 \<Longrightarrow> modPow base exponent modulus = Inr 1"
  by (simp add: modPow_def bigint_rem_def modPow_loop.simps [of 1 _ exponent modulus])


lemma bigint_div_nonneg: "0 \<le> a \<Longrightarrow> 0 < b \<Longrightarrow> bigint_div a b = Inr (a div b)"
  by (cases "a = 0") (simp_all add: bigint_div_def)

lemma inv_state_step:
  assumes inv: "inv_state a0 m0 a m x0 x1" and a: "1 < a"
  shows "0 < m" and "inv_state a0 m0 m (a mod m) (x1 - (a div m) * x0) x0"
proof -
  from inv have m0: "0 \<le> m" and cop: "coprime a m"
    and c1: "(x1 * a0) mod m0 = a mod m0" and c0: "(x0 * a0) mod m0 = m mod m0"
    and sum: "a * \<bar>x0\<bar> + m * \<bar>x1\<bar> = m0"
    and sgn: "(x0 \<le> 0 \<and> 0 \<le> x1) \<or> (0 \<le> x0 \<and> x1 \<le> 0)"
    by (simp_all add: inv_state_def)
  have "m \<noteq> 0"
  proof
    assume "m = 0"
    with cop have "is_unit a" by simp
    with a show False by simp
  qed
  with m0 show mpos: "0 < m" by simp
  define q where "q = a div m"
  have q0: "0 \<le> q" using a mpos by (simp add: q_def pos_imp_zdiv_nonneg_iff)
  have am: "a mod m = a - q * m" by (simp add: q_def minus_div_mult_eq_mod)
  have abs_new: "\<bar>x1 - q * x0\<bar> = \<bar>x1\<bar> + q * \<bar>x0\<bar>"
  proof -
    from sgn show ?thesis
    proof
      assume h: "x0 \<le> 0 \<and> 0 \<le> x1"
      then have "q * x0 \<le> 0" using q0 by (simp add: mult_nonneg_nonpos)
      then show ?thesis using h by (simp add: abs_of_nonneg abs_of_nonpos)
    next
      assume h: "0 \<le> x0 \<and> x1 \<le> 0"
      then have "0 \<le> q * x0" using q0 by simp
      then show ?thesis using h by (simp add: abs_of_nonneg abs_of_nonpos)
    qed
  qed
  have sum': "m * \<bar>x1 - q * x0\<bar> + (a mod m) * \<bar>x0\<bar> = m0"
    unfolding abs_new am using sum by (simp add: algebra_simps)
  have sgn': "(x1 - q * x0 \<le> 0 \<and> 0 \<le> x0) \<or> (0 \<le> x1 - q * x0 \<and> x0 \<le> 0)"
  proof -
    from sgn show ?thesis
    proof
      assume h: "x0 \<le> 0 \<and> 0 \<le> x1"
      then have "q * x0 \<le> 0" using q0 by (simp add: mult_nonneg_nonpos)
      then show ?thesis using h by simp
    next
      assume h: "0 \<le> x0 \<and> x1 \<le> 0"
      then have "0 \<le> q * x0" using q0 by simp
      then show ?thesis using h by simp
    qed
  qed
  have cong': "((x1 - q * x0) * a0) mod m0 = (a mod m) mod m0"
  proof -
    have "((x1 - q * x0) * a0) mod m0 = (x1 * a0 - q * (x0 * a0)) mod m0"
      by (simp add: algebra_simps)
    also have "\<dots> = ((x1 * a0) mod m0 - (q * ((x0 * a0) mod m0)) mod m0) mod m0"
      by (simp add: mod_diff_eq mod_mult_right_eq)
    also have "\<dots> = (a mod m0 - (q * (m mod m0)) mod m0) mod m0"
      by (simp only: c1 c0)
    also have "\<dots> = (a - q * m) mod m0"
      by (simp add: mod_diff_eq mod_mult_right_eq)
    finally show ?thesis by (simp add: am)
  qed
  have cop': "coprime m (a mod m)"
    using cop unfolding coprime_iff_gcd_eq_1 by (simp add: gcd_red_int [symmetric])
  have "0 \<le> a mod m" using mpos by simp
  then show "inv_state a0 m0 m (a mod m) (x1 - (a div m) * x0) x0"
    unfolding inv_state_def using cop' cong' c0 sum' sgn' by (simp add: q_def)
qed

lemma modInverse_loop_correct:
  "1 < a \<Longrightarrow> 0 < m0 \<Longrightarrow> inv_state a0 m0 a m x0 x1 \<Longrightarrow>
   \<exists>r. modInverse_loop a m x0 x1 = Inr r \<and> \<bar>r\<bar> < m0 \<and> (r * a0) mod m0 = 1 mod m0"
proof (induction a m x0 x1 rule: modInverse_loop.induct)
  case (1 a m x0 x1)
  have mpos: "0 < m" and inv': "inv_state a0 m0 m (a mod m) (x1 - (a div m) * x0) x0"
    using inv_state_step [OF 1(4) 1(2)] by simp_all
  have q: "bigint_div a m = Inr (a div m)" and r: "bigint_rem a m = Inr (a mod m)"
    using 1(2) mpos by (simp_all add: bigint_div_nonneg bigint_rem_nonneg)
  have step: "modInverse_loop a m x0 x1 = modInverse_loop m (a mod m) (x1 - (a div m) * x0) x0"
    using 1(2) q r by (subst modInverse_loop.simps) simp
  show ?case
  proof (cases "1 < m")
    case True
    show ?thesis
      unfolding step using "1.IH" [OF 1(2) q r True 1(3) inv'] .
  next
    case False
    with mpos have m1: "m = 1" by simp
    have ret: "modInverse_loop m (a mod m) (x1 - (a div m) * x0) x0 = Inr x0"
      using m1 by (subst modInverse_loop.simps) simp
    from 1(4) have sum: "a * \<bar>x0\<bar> + m * \<bar>x1\<bar> = m0" and c0: "(x0 * a0) mod m0 = m mod m0"
      by (simp_all add: inv_state_def)
    have "2 * \<bar>x0\<bar> \<le> a * \<bar>x0\<bar>"
      using 1(2) by (intro mult_right_mono) simp_all
    also have "\<dots> \<le> m0" using sum m1 by simp
    finally have "\<bar>x0\<bar> < m0" using 1(3) by linarith
    then show ?thesis
      unfolding step ret using c0 m1 by simp
  qed
qed


lemma modInverse_positive:
  assumes cop: "coprime e phi" and e: "1 \<le> e" and phi: "1 < phi"
  shows "\<exists>d. modInverse e phi = Inr d \<and> 0 \<le> d \<and> d \<le> phi - 1 \<and> (e * d) mod phi = 1"
proof -
  have "\<exists>r. modInverse_loop e phi 0 1 = Inr r \<and> \<bar>r\<bar> < phi \<and> (r * e) mod phi = 1 mod phi"
  proof (cases "1 < e")
    case True
    have "inv_state e phi e phi 0 1"
      using cop phi by (simp add: inv_state_def)
    with True phi show ?thesis
      by (intro modInverse_loop_correct) simp_all
  next
    case False
    with e have "e = 1" by simp
    then show ?thesis
      using phi by (subst modInverse_loop.simps) simp
  qed
  then obtain r where r: "modInverse_loop e phi 0 1 = Inr r" and bound: "\<bar>r\<bar> < phi"
    and inv: "(r * e) mod phi = 1 mod phi"
    by blast
  define d where "d = (if r < 0 then r + phi else r)"
  have res: "modInverse e phi = Inr d"
    using phi r by (simp add: modInverse_def d_def)
  have range: "0 \<le> d \<and> d \<le> phi - 1"
    using bound by (auto simp: d_def)
  have "(e * d) mod phi = (r * e) mod phi"
    by (simp add: d_def algebra_simps)
  then have "(e * d) mod phi = 1"
    using inv phi by simp
  with res range show ?thesis by blast
qed

text \<open>
  Claim C2, amended. For every \<open>e \<ge> 1\<close> coprime to \<open>phi > 1\<close>, \<open>modInverse e phi\<close> returns
  a value \<open>d\<close> in \<open>[0, phi - 1]\<close> with \<open>(e * d) mod phi = 1\<close> (also under the
  runtime's own \<open>%\<close>); and \<open>modInverse a 1\<close> is \<open>0\<close> for every \<open>a\<close>.
\<close>

theorem modInverse_correct:
  "(coprime e phi \<and> 1 \<le> e \<and> 1 < phi \<longrightarrow>
      (\<exists>d. modInverse e phi = Inr d \<and> 0 \<le> d \<and> d \<le> phi - 1 \<and>
           (e * d) mod phi = 1 \<and> bigint_rem (e * d) phi = Inr 1))
   \<and> modInverse a 1 = Inr 0"
proof (intro conjI impI)
  assume h: "coprime e phi \<and> 1 \<le> e \<and> 1 < phi"
  then obtain d where d: "modInverse e phi = Inr d" "0 \<le> d" "d \<le> phi - 1" "(e * d) mod phi = 1"
    using modInverse_positive [of e phi] by blast
  have "0 \<le> e * d" using h d(2) by simp
  then have "bigint_rem (e * d) phi = Inr ((e * d) mod phi)"
    using h by (intro bigint_rem_nonneg) simp_all
  with d show "\<exists>d. modInverse e phi = Inr d \<and> 0 \<le> d \<and> d \<le> phi - 1 \<and>
           (e * d) mod phi = 1 \<and> bigint_rem (e * d) phi = Inr 1"
    by auto
next
  show "modInverse a 1 = Inr 0"
    by (simp add: modInverse_def)
qed

theorem modInverse_correct_witness:
  "coprime (7::int) 40 \<and> (1::int) \<le> 7 \<and> (1::int) < 40 \<and>
   modInverse 7 40 = Inr 23 \<and> (7 * 23) mod (40::int) = 1 \<and> bigint_rem (7 * 23) 40 = Inr 1 \<and>
   modInverse 12345 1 = Inr 0"
proof -
  have c: "coprime (7::int) 40"
    unfolding coprime_iff_gcd_eq_1 by code_simp
  have v: "modInverse 7 40 = Inr 23"
    by code_simp
  show ?thesis
    using c v modInverse_correct [of 7 40 12345] by (simp add: bigint_rem_def)
qed

text \<open>
  Claim C2 as stated covers every \<open>e\<close> coprime to \<open>phi\<close>. For the negative \<open>e = -2\<close> and
  \<open>phi = 5\<close> (coprime, also by the program's own \<open>gcd\<close>) the loop is never entered and
  the result \<open>1\<close> is not an inverse.
\<close>

theorem modInverse_negative_counterexample:
  "coprime (- 2 :: int) 5 \<and> gcd_RSA (- 2) 5 = Inr 1 \<and> modInverse (- 2) 5 = Inr 1 \<and>
   (- 2 * 1) mod (5 :: int) = 3 \<and> bigint_rem (- 2 * 1) 5 = Inr (- 2)"
proof -
  have "coprime (- 2 :: int) 5"
    unfolding coprime_iff_gcd_eq_1 by code_simp
  moreover have "gcd_RSA (- 2) 5 = Inr 1" by code_simp
  moreover have "modInverse (- 2) 5 = Inr 1" by code_simp
  ultimately show ?thesis by (simp add: bigint_rem_def)
qed


section \<open>Claims about modPow\<close>

text \<open>
  Claim C3, amended. For every \<open>base \<ge> 0\<close>, \<open>exponent \<ge> 0\<close> and \<open>modulus > 0\<close>, with
  \<open>exponent > 0\<close> or \<open>modulus > 1\<close>, \<open>modPow\<close> returns a value in \<open>[0, modulus - 1]\<close>; and
  \<open>modPow a 0 n\<close> is \<open>1\<close> for every \<open>a\<close> and every \<open>n > 1\<close>.
\<close>

theorem modPow_range:
  "(0 \<le> base \<and> 0 \<le> exponent \<and> 0 < modulus \<and> (0 < exponent \<or> 1 < modulus) \<longrightarrow>
      (\<exists>r. modPow base exponent modulus = Inr r \<and> 0 \<le> r \<and> r \<le> modulus - 1))
   \<and> (1 < n \<longrightarrow> modPow a 0 n = Inr 1)"
proof (intro conjI impI)
  assume h: "0 \<le> base \<and> 0 \<le> exponent \<and> 0 < modulus \<and> (0 < exponent \<or> 1 < modulus)"
  then have v: "modPow base exponent modulus =
      Inr (if 0 < exponent then base ^ nat exponent mod modulus else 1)"
    by (intro modPow_nonneg) simp_all
  show "\<exists>r. modPow base exponent modulus = Inr r \<and> 0 \<le> r \<and> r \<le> modulus - 1"
  proof (cases "0 < exponent")
    case True
    have "0 \<le> base ^ nat exponent mod modulus" "base ^ nat exponent mod modulus < modulus"
      using h by simp_all
    with True v show ?thesis by simp
  next
    case False
    with h have "1 < modulus" by simp
    with False v show ?thesis by simp
  qed
next
  assume "1 < n"
  then show "modPow a 0 n = Inr 1"
    by (intro modPow_nonpos_exponent) simp_all
qed

theorem modPow_range_witness:
  "(0::int) \<le> 4 \<and> (0::int) \<le> 13 \<and> (0::int) < 497 \<and> ((0::int) < 13 \<or> (1::int) < 497) \<and>
   modPow 4 13 497 = Inr 445 \<and> (0::int) \<le> 445 \<and> (445::int) \<le> 497 - 1 \<and>
   (1::int) < 5 \<and> modPow 9 0 5 = Inr 1"
proof -
  have v: "modPow 4 13 497 = Inr 445"
    by code_simp
  show ?thesis
    using v modPow_range [of 4 13 497 5 9] by simp
qed

text \<open>
  Claim C3 as stated covers every base and every modulus \<open>> 0\<close>. A negative base keeps its
  sign through \<open>%\<close>, and with exponent \<open>0\<close> and modulus \<open>1\<close> the initial \<open>result = 1n\<close> is
  returned unreduced: neither value is in \<open>[0, modulus - 1]\<close>.
\<close>

theorem modPow_range_counterexample:
  "modPow (- 3) 1 5 = Inr (- 3) \<and> modPow 7 0 1 = Inr 1"
  by (simp add: modPow_def bigint_rem_def modPow_loop.simps)

text \<open>
  Claim C9, amended. \<open>modPow\<close> has no guard of its own. The only call that fails is the one
  with \<open>modulus = 0\<close>, where the first \<open>%\<close> throws a RangeError; with any other modulus,
  negative ones included, it returns a value, and with \<open>exponent \<le> 0\<close> that value is \<open>1\<close>.
\<close>

theorem modPow_unguarded:
  "(modulus = 0 \<longrightarrow> modPow base exponent modulus = Inl RangeError) \<and>
   (modulus \<noteq> 0 \<longrightarrow> (\<exists>r. modPow base exponent modulus = Inr r)) \<and>
   (modulus \<noteq> 0 \<and> exponent \<le> 0 \<longrightarrow> modPow base exponent modulus = Inr 1)"
  using modPow_zero_modulus modPow_returns modPow_nonpos_exponent by blast

theorem modPow_unguarded_witness:
  "modPow 2 5 0 = Inl RangeError \<and> (5::int) \<noteq> 0 \<and> (- 1 :: int) \<le> 0 \<and>
   (\<exists>r. modPow 2 (- 1) 5 = Inr r) \<and> modPow 2 (- 1) 5 = Inr 1"
  using modPow_unguarded [of 0 2 5] modPow_unguarded [of 5 2 "- 1"] by simp

text \<open>
  Claim C9 as stated: every call with \<open>modulus \<le> 0\<close> or \<open>exponent < 0\<close> fails. A negative
  exponent skips the loop and a negative modulus is an ordinary divisor for \<open>%\<close>: both calls
  return a value.
\<close>

theorem modPow_unguarded_counterexample:
  "modPow 2 (- 1) 5 = Inr 1 \<and> modPow 2 3 (- 5) = Inr 3"
  by (simp add: modPow_def bigint_rem_def modPow_loop.simps)


section \<open>Claims about the random draws and the key check\<close>

lemma Number_bigint_small: "\<bar>x\<bar> < 2 ^ 53 \<Longrightarrow> Number_bigint x = Some x"
  by (simp add: Number_bigint_def)

lemma randomBelow_range:
  assumes u: "0 \<le> u" "u < 1" and N: "0 < N" "N < 2 ^ 53"
  shows "\<exists>x. randomBelow u N = Inr x \<and> 0 \<le> x \<and> x < N"
proof -
  have num: "Number_bigint N = Some N"
    using N by (intro Number_bigint_small) simp
  have lo: "0 \<le> \<lfloor>u * of_int N\<rfloor>"
    using u N by simp
  have "u * of_int N < of_int N"
    using u N by simp
  then have hi: "\<lfloor>u * of_int N\<rfloor> < N"
    by (simp add: floor_less_iff)
  show ?thesis
    using num lo hi by (simp add: randomBelow_def)
qed

lemma drawWitness_range:
  assumes u: "0 \<le> u" "u < 1" and n: "3 < n"
  shows "\<exists>a. drawWitness n u = Inr a \<and> minRandom n \<le> a \<and> a < n"
proof -
  have "0 < n - minRandom n" "n - minRandom n < 2 ^ 53"
    using n by (simp_all add: minRandom_def)
  from randomBelow_range [OF u this]
  show ?thesis
    by (auto simp: drawWitness_def bindR_def)
qed

lemma minRandom_max: "n \<noteq> 11 \<Longrightarrow> minRandom n = max (n - 10) 2"
  by (simp add: minRandom_def)

text \<open>
  Claim C5 says that every witness lies in \<open>[max (n - 10) 2, n)\<close>. The lower bound of the
  code is \<open>minRandom n\<close>: for \<open>n = 11\<close> the test \<open>n > 10n\<close> holds and the bound is \<open>1\<close>, so a
  draw below \<open>1 / 10\<close> gives the witness \<open>1\<close>. For every other odd \<open>n > 3\<close> the two bounds
  agree (\<open>drawWitness_range\<close>).
\<close>

theorem witness_below_two:
  "drawWitness 11 (1 / 20) = Inr 1 \<and> \<not> max (11 - 10) 2 \<le> (1::int) \<and> minRandom 11 = 1"
  by (simp add: drawWitness_def randomBelow_def bindR_def minRandom_def
      Number_bigint_small)

lemma ascii_bits: "ascii ''0'' = [48]" "ascii ''1'' = [49]" "ascii ''0b'' = [48, 98]"
  by (simp_all add: ascii_def)

lemma randomBits_loop_bits:
  "randomBits_loop (real b) i randomBits draws = Returns bits rest \<Longrightarrow> i \<le> b \<Longrightarrow>
   \<exists>ext. bits = randomBits @ ext \<and> length ext = b - i \<and> set ext \<subseteq> {48, 49}"
proof (induction "real b" i randomBits draws rule: randomBits_loop.induct)
  case (1 i randomBits draws)
  show ?case
  proof (cases "i < b")
    case False
    with 1(2,3) show ?thesis
      by (subst (asm) randomBits_loop.simps) simp
  next
    case True
    then have lt: "real i < real b" by simp
    from 1(2) lt obtain u us where draws: "draws = u # us"
      and run: "randomBits_loop (real b) (i + 1)
          (randomBits @ (if u < 0.5 then ascii ''0'' else ascii ''1'')) us = Returns bits rest"
      by (subst (asm) randomBits_loop.simps) (auto split: list.splits)
    from "1.hyps" [OF lt draws run] True
    obtain ext where ext: "bits = (randomBits @ (if u < 0.5 then ascii ''0'' else ascii ''1'')) @ ext"
      "length ext = b - (i + 1)" "set ext \<subseteq> {48, 49}"
      by auto
    define ext' where "ext' = (if u < 0.5 then ascii ''0'' else ascii ''1'') @ ext"
    have "bits = randomBits @ ext'"
      using ext(1) by (simp add: ext'_def)
    moreover have "length ext' = b - i"
      using ext(2) True by (simp add: ext'_def ascii_bits)
    moreover have "set ext' \<subseteq> {48, 49}"
      using ext(3) by (auto simp: ext'_def ascii_bits)
    ultimately show ?thesis by blast
  qed
qed

lemma parseDigits_bits:
  "set ext \<subseteq> {48, 49} \<Longrightarrow>
   \<exists>w. parseDigits 2 acc ext = Some (acc * 2 ^ length ext + w) \<and> 0 \<le> w \<and> w < 2 ^ length ext"
proof (induction ext arbitrary: acc)
  case Nil
  show ?case by simp
next
  case (Cons c ext)
  then have c: "c = 48 \<or> c = 49" and ext: "set ext \<subseteq> {48, 49}"
    by auto
  define v :: int where "v = (if c = 48 then 0 else 1)"
  have dv: "digitValue c = Some (nat v)" and v: "0 \<le> v" "v \<le> 1"
    using c by (auto simp: digitValue_def v_def)
  from Cons.IH [OF ext, of "acc * 2 + v"] obtain w where
    w: "parseDigits 2 (acc * 2 + v) ext = Some ((acc * 2 + v) * 2 ^ length ext + w)"
      "0 \<le> w" "w < 2 ^ length ext"
    by blast
  have nv: "nat v < 2" "int (nat v) = v"
    using v by simp_all
  have "parseDigits 2 acc (c # ext) = Some ((acc * 2 + v) * 2 ^ length ext + w)"
    using dv nv w(1) by simp
  moreover have "(acc * 2 + v) * 2 ^ length ext + w =
      acc * 2 ^ length (c # ext) + (v * 2 ^ length ext + w)"
    by (simp add: algebra_simps)
  moreover have "0 \<le> v * 2 ^ length ext + w"
    using v w(2) by simp
  moreover have "v * 2 ^ length ext + w < 2 ^ length (c # ext)"
  proof -
    have "v * 2 ^ length ext \<le> 1 * 2 ^ length ext"
      using v by (intro mult_right_mono) simp_all
    then have "v * 2 ^ length ext + w < 2 ^ length ext + 2 ^ length ext"
      using w(3) by linarith
    then show ?thesis by simp
  qed
  ultimately show ?case by metis
qed

lemma trimString_ends:
  assumes "s \<noteq> []" and "\<not> StrWhiteSpaceChar (hd s)" and "\<not> StrWhiteSpaceChar (last s)"
  shows "trimString s = s"
proof -
  have "dropWhile StrWhiteSpaceChar s = s"
    using assms(1,2) by (cases s) simp_all
  moreover have "dropWhile StrWhiteSpaceChar (rev s) = rev s"
    using assms(1,3) by (cases "rev s") (simp_all add: hd_rev [symmetric])
  ultimately show ?thesis
    by (simp add: trimString_def)
qed

lemma BigInt_string_bits:
  assumes "set ext \<subseteq> {48, 49}"
  shows "\<exists>w. BigInt_string (ascii ''0b'' @ ascii ''1'' @ ext) = Inr (2 ^ length ext + w) \<and>
           0 \<le> w \<and> w < 2 ^ length ext"
proof -
  define s where "s = ascii ''0b'' @ ascii ''1'' @ ext"
  have s: "s = 48 # 98 # 49 # ext"
    by (simp add: s_def ascii_bits)
  have "last s = 49 \<or> last s \<in> set ext"
    unfolding s by (cases "ext = []") simp_all
  then have "last s = 48 \<or> last s = 49"
    using assms by auto
  then have "\<not> StrWhiteSpaceChar (last s)"
    by (auto simp: StrWhiteSpaceChar_def)
  moreover have "\<not> StrWhiteSpaceChar (hd s)"
    by (simp add: s StrWhiteSpaceChar_def)
  ultimately have trim: "trimString s = 48 # 98 # 49 # ext"
    using trimString_ends [of s] by (simp add: s)
  have one: "digitValue 49 = Some 1"
    by (simp add: digitValue_def)
  from parseDigits_bits [OF assms, of 1] obtain w where
    w: "parseDigits 2 1 ext = Some (2 ^ length ext + w)" "0 \<le> w" "w < 2 ^ length ext"
    by auto
  have "parseRadix 2 (49 # ext) = Inr (2 ^ length ext + w)"
    using one w(1) by (simp add: parseRadix_def)
  then have "BigInt_string s = Inr (2 ^ length ext + w)"
    by (simp add: BigInt_string_def trim)
  with w(2,3) show ?thesis
    unfolding s_def by blast
qed

lemma generateRandomOddNumber_range:
  assumes run: "generateRandomOddNumber (real b) draws = Returns v rest" and b: "1 \<le> b"
  shows "2 ^ (b - 1) \<le> v \<and> v < 2 ^ b"
proof -
  from run obtain bits rest' where
    loop: "randomBits_loop (real b) 1 (ascii ''1'') draws = Returns bits rest'" and
    parse: "BigInt_string (ascii ''0b'' @ bits) = Inr v"
    by (auto simp: generateRandomOddNumber_def bindO_def liftR_def split: outcome.splits sum.splits)
  from randomBits_loop_bits [OF loop b] obtain ext where
    ext: "bits = ascii ''1'' @ ext" "length ext = b - 1" "set ext \<subseteq> {48, 49}"
    by blast
  from BigInt_string_bits [OF ext(3)] parse ext(1) obtain w where
    w: "v = 2 ^ length ext + w" "0 \<le> w" "w < 2 ^ length ext"
    by auto
  have "(2::int) ^ b = 2 * 2 ^ (b - 1)"
    using b by (cases b) simp_all
  with w ext(2) show ?thesis by simp
qed

text \<open>
  Claim C6 says that every candidate is odd. Only the first bit of the candidate is fixed
  to \<open>1\<close>; the last one is drawn like the others, so for the bit length \<open>2\<close> a draw below
  \<open>1 / 2\<close> gives the even candidate \<open>2\<close> (binary \<open>10\<close>). The other half of the claim holds:
  for a whole bit length \<open>b \<ge> 1\<close> every candidate lies in \<open>[2 ^ (b - 1), 2 ^ b)\<close>
  (\<open>generateRandomOddNumber_range\<close>).
\<close>

theorem candidate_even:
  "generateRandomOddNumber 2 [1 / 4] = Returns 2 [] \<and> even (2::int)"
  by code_simp

lemma validateKey_decoded:
  "atob key = Inr unzipedKey \<Longrightarrow> validateKey key = Inr (2 \<le> length (split 44 unzipedKey))"
  by (auto simp: validateKey_def bindR_def Let_def)

text \<open>
  Claim C8 says that \<open>validateKey\<close> returns false for a token that fails to decode. For the
  token \<open>!\<close>, which is not base64, \<open>atob\<close> throws and \<open>validateKey\<close> throws with it.
\<close>

theorem validateKey_raises:
  "validateKey (ascii ''!'') = Inl InvalidCharacterError"
  by code_simp

lemma decrypt_empty:
  assumes k: "keyFields priv = Inr (Some d, Some n)" and d: "0 < d" and n: "1 < n"
  shows "decryptWorker [] priv = Inr [0]"
proof -
  have fields: "mapBigInt (split 44 []) = Inr [0]"
    by (simp add: BigInt_string_def trimString_def)
  have pow: "modPow 0 d n = Inr 0"
    using d n by (simp add: modPow_nonneg [of 0 n d] zero_power)
  have "decrypt_loop (Some d) (Some n) [0] [] = Inr [0]"
    using pow by (simp add: modPow_fields_def Number_bigint_small fromCharCode_def)
  then show ?thesis
    using k fields by (simp add: decryptWorker_def bindR_def)
qed

lemma encrypt_empty:
  assumes k: "keyFields pub = Inr (e, n)"
  shows "encryptWorker [] pub = Inr []"
  using k by (simp add: encryptWorker_def bindR_def)

text \<open>
  Claim C10, amended. With any public key that decodes, the empty plaintext encrypts to
  the empty token. For every private key with exponent \<open>d > 0\<close> and modulus \<open>n > 1\<close>,
  decrypting the empty token returns the one-character string with code unit \<open>0\<close>, which
  is not the empty string.
\<close>

theorem empty_round_trip:
  "(keyFields pub = Inr (e, n) \<longrightarrow> encryptWorker [] pub = Inr []) \<and>
   (keyFields priv = Inr (Some d, Some n') \<and> 0 < d \<and> 1 < n' \<longrightarrow>
      decryptWorker [] priv = Inr [0] \<and> decryptWorker [] priv \<noteq> Inr [])"
  using encrypt_empty decrypt_empty by simp

theorem empty_round_trip_witness:
  "keyFields (keyToken 65537 16899) = Inr (Some 65537, Some 16899) \<and>
   encryptWorker [] (keyToken 65537 16899) = Inr [] \<and>
   keyFields (keyToken 6913 16899) = Inr (Some 6913, Some 16899) \<and>
   (0::int) < 6913 \<and> (1::int) < 16899 \<and>
   decryptWorker [] (keyToken 6913 16899) = Inr [0] \<and>
   decryptWorker [] (keyToken 6913 16899) \<noteq> Inr []"
proof -
  have pub: "keyFields (keyToken 65537 16899) = Inr (Some 65537, Some 16899)"
    by code_simp
  have priv: "keyFields (keyToken 6913 16899) = Inr (Some 6913, Some 16899)"
    by code_simp
  have num: "(0::int) < 6913 \<and> (1::int) < 16899"
    by simp
  note inst = empty_round_trip [of "keyToken 65537 16899" "Some 65537" "Some 16899"
        "keyToken 6913 16899" 6913 16899]
  from inst pub have enc: "encryptWorker [] (keyToken 65537 16899) = Inr []"
    by blast
  from inst priv num
  have dec: "decryptWorker [] (keyToken 6913 16899) = Inr [0] \<and>
      decryptWorker [] (keyToken 6913 16899) \<noteq> Inr []"
    by blast
  from pub priv num enc dec show ?thesis
    by blast
qed

text \<open>
  Claim C10 as stated covers every private key with modulus \<open>n > 1\<close>. With the exponent
  \<open>d = 0\<close> the decryption of the empty token is the character with code unit \<open>1\<close>, since
  \<open>modPow 0 0 n = 1\<close>. \<open>generateKeys\<close> itself returns such a key for the bit length \<open>4\<close> when
  both primes come out as \<open>2\<close>. And a public key token whose text is not a list of integers
  (here the token of \<open>x,5\<close>) makes \<open>encryptWorker\<close> throw, for the empty plaintext too.
\<close>

theorem empty_round_trip_counterexample:
  "generateKeys 1 4 [1 / 10, 1 / 10] =
     Returns \<lparr>publicKey = keyToken 65537 4, privateKey = keyToken 0 4\<rparr> [] \<and>
   keyFields (keyToken 0 4) = Inr (Some 0, Some 4) \<and> (1::int) < 4 \<and>
   decryptWorker [] (keyToken 0 4) = Inr [1] \<and>
   encryptWorker [] (base64Encode (utf8Encode (ascii ''x,5''))) = Inl SyntaxError"
  by code_simp

section \<open>Claims about the cipher\<close>

lemma modPow_fields_unit:
  assumes n: "1 < n"
  shows "modPow_fields (uint c) e (Some n) = Inr (cipherUnit e n c)"
proof (cases e)
  case None
  then show ?thesis
    using n by (simp add: modPow_fields_def cipherUnit_def bigint_rem_def bindR_def)
next
  case (Some e')
  have "modPow (uint c) e' n = Inr (if 0 < e' then uint c ^ nat e' mod n else 1)"
    using n by (intro modPow_nonneg) simp_all
  with Some show ?thesis
    by (simp add: modPow_fields_def cipherUnit_def)
qed

lemma cipherUnit_range: "1 < n \<Longrightarrow> 0 \<le> cipherUnit e n c \<and> cipherUnit e n c < n"
  by (simp add: cipherUnit_def split: option.split)

lemma encrypt_loop_units:
  assumes n: "1 < n"
  shows "encrypt_loop e (Some n) message acc =
     Inr (acc @ concat (map (\<lambda>c. bigint_toString (cipherUnit e n c) @ ascii '','') message))"
proof (induction message arbitrary: acc)
  case Nil
  show ?case by simp
next
  case (Cons c message)
  show ?case
    by (simp add: modPow_fields_unit [OF n] Cons.IH)
qed

text \<open>
  Claim C7. For every public key whose modulus field is \<open>n > 1\<close> and every message,
  \<open>encryptWorker\<close> returns the units joined by commas, one unit per code unit of the
  message, each the result of \<open>modPow\<close> on that code unit, and each unit \<open>u\<close> satisfies
  \<open>0 \<le> u < n\<close>.
\<close>

theorem ciphertext_units_in_range:
  assumes key: "keyFields pub = Inr (e, Some n)" and n: "1 < n"
  shows "\<exists>units. length units = length message \<and>
           (\<forall>i < length message. modPow_fields (uint (message ! i)) e (Some n) = Inr (units ! i)) \<and>
           (\<forall>u \<in> set units. 0 \<le> u \<and> u < n) \<and>
           encryptWorker message pub =
             Inr (butlast (concat (map (\<lambda>u. bigint_toString u @ ascii '','') units)))"
proof -
  define units where "units = map (cipherUnit e n) message"
  have "encrypt_loop e (Some n) message [] =
      Inr (concat (map (\<lambda>c. bigint_toString (cipherUnit e n c) @ ascii '','') message))"
    using encrypt_loop_units [OF n, of e message "[]"] by simp
  then have enc: "encryptWorker message pub =
      Inr (butlast (concat (map (\<lambda>u. bigint_toString u @ ascii '','') units)))"
    using key by (simp add: encryptWorker_def bindR_def units_def comp_def)
  have "length units = length message"
    by (simp add: units_def)
  moreover have "\<forall>i < length message. modPow_fields (uint (message ! i)) e (Some n) = Inr (units ! i)"
    by (simp add: units_def modPow_fields_unit [OF n])
  moreover have "\<forall>u \<in> set units. 0 \<le> u \<and> u < n"
    using cipherUnit_range [OF n] by (auto simp: units_def)
  ultimately show ?thesis
    using enc by blast
qed

theorem ciphertext_units_in_range_witness:
  "keyFields (keyToken 65537 16899) = Inr (Some 65537, Some 16899) \<and> (1::int) < 16899 \<and>
   (\<exists>units. length units = length (ascii ''Hi'') \<and>
      (\<forall>i < length (ascii ''Hi'').
         modPow_fields (uint (ascii ''Hi'' ! i)) (Some 65537) (Some 16899) = Inr (units ! i)) \<and>
      (\<forall>u \<in> set units. 0 \<le> u \<and> u < 16899) \<and>
      encryptWorker (ascii ''Hi'') (keyToken 65537 16899) =
        Inr (butlast (concat (map (\<lambda>u. bigint_toString u @ ascii '','') units))))"
proof -
  have key: "keyFields (keyToken 65537 16899) = Inr (Some 65537, Some 16899)"
    by code_simp
  have n: "(1::int) < 16899"
    by simp
  from key n ciphertext_units_in_range [OF key n, of "ascii ''Hi''"] show ?thesis
    by blast
qed


section \<open>Claims about key generation\<close>

lemma gcd_RSA_nonneg: "0 \<le> a \<Longrightarrow> 0 \<le> b \<Longrightarrow> gcd_RSA a b = Inr (gcd a b)"
proof (induction a b rule: gcd_RSA.induct)
  case (1 a b)
  show ?case
  proof (cases "b = 0")
    case True
    with 1(2) show ?thesis
      by (subst gcd_RSA.simps) simp
  next
    case False
    with 1(3) have b: "0 < b" by simp
    have r: "bigint_rem a b = Inr (a mod b)"
      using 1(2) b by (rule bigint_rem_nonneg)
    have "gcd_RSA b (a mod b) = Inr (gcd b (a mod b))"
      using "1.IH" [OF False r] 1(3) b by simp
    then have "gcd_RSA a b = Inr (gcd b (a mod b))"
      using False r by (subst gcd_RSA.simps) simp
    then show ?thesis
      by (simp add: gcd_red_int [symmetric])
  qed
qed

lemma millerRabin_true_ge2:
  "millerRabinPrimalityTest n k draws = Returns True rest \<Longrightarrow> 2 \<le> n"
  by (cases "n < 2") (simp_all add: millerRabinPrimalityTest_def)

lemma generatePrime_ge2:
  "generatePrime fuel bitLength draws = Returns p rest \<Longrightarrow> 2 \<le> p"
proof (induction fuel arbitrary: draws)
  case 0
  then show ?case by simp
next
  case (Suc fuel)
  from Suc.prems obtain prime draws1 ok draws2 where
    mr: "millerRabinPrimalityTest prime 10 draws1 = Returns ok draws2" and
    rest: "(if \<not> ok then generatePrime fuel bitLength draws2 else Returns prime draws2) = Returns p rest"
    by (auto simp: bindO_def split: outcome.splits)
  show ?case
  proof (cases ok)
    case True
    with rest have "prime = p" by simp
    with mr True show ?thesis
      using millerRabin_true_ge2 [of prime 10 draws1 draws2] by simp
  next
    case False
    with rest show ?thesis
      using Suc.IH by simp
  qed
qed

lemma exponent_loop_coprime:
  "gcd_RSA e phi = Inr 1 \<Longrightarrow> exponent_loop e phi draws = Returns e draws"
  by (subst exponent_loop.simps) simp

lemma modInverse_returns:
  assumes g: "gcd_RSA e phi = Inr 1" and e: "1 \<le> e" and phi: "1 \<le> phi"
  shows "\<exists>d. modInverse e phi = Inr d \<and> 0 \<le> d \<and> d < phi \<and> (e * d) mod phi = 1 mod phi"
proof (cases "phi = 1")
  case True
  then show ?thesis by (simp add: modInverse_def)
next
  case False
  with phi have phi1: "1 < phi" by simp
  have "gcd_RSA e phi = Inr (gcd e phi)"
    using e phi by (intro gcd_RSA_nonneg) simp_all
  with g have "coprime e phi"
    by (simp add: coprime_iff_gcd_eq_1)
  from modInverse_positive [OF this e phi1] phi1 show ?thesis
    by auto
qed

text \<open>
  Claim C4. When the two calls of \<open>generatePrime\<close> return \<open>p\<close> and \<open>q\<close> and the program's
  \<open>gcd\<close> of \<open>65537\<close> and \<open>phi = (p - 1) * (q - 1)\<close> is \<open>1\<close>, the exponent loop returns
  \<open>65537\<close> without taking a draw (its body is never entered), and \<open>generateKeys\<close> returns
  the tokens of \<open>(65537, p * q)\<close> and \<open>(d, p * q)\<close> with \<open>d = modInverse 65537 phi\<close>, the
  draws left being those left by the second prime.
\<close>

theorem exponent_preference:
  assumes p: "generatePrime fuel (bitLength / 2) draws = Returns p draws1"
    and q: "generatePrime fuel (bitLength / 2) draws1 = Returns q draws2"
    and g: "gcd_RSA 65537 ((p - 1) * (q - 1)) = Inr 1"
  shows "exponent_loop PUBLIC_EXPONENT ((p - 1) * (q - 1)) draws2 = Returns 65537 draws2 \<and>
         (\<exists>d. modInverse 65537 ((p - 1) * (q - 1)) = Inr d \<and>
              generateKeys fuel bitLength draws =
                Returns \<lparr>publicKey = keyToken 65537 (p * q), privateKey = keyToken d (p * q)\<rparr> draws2)"
proof -
  have e: "exponent_loop PUBLIC_EXPONENT ((p - 1) * (q - 1)) draws2 = Returns 65537 draws2"
    unfolding PUBLIC_EXPONENT_def using g by (rule exponent_loop_coprime)
  have "2 \<le> p" "2 \<le> q"
    using p q generatePrime_ge2 by blast+
  then have "1 \<le> (p - 1) * (q - 1)"
    by (smt (verit) mult_le_cancel_left1 mult_pos_pos)
  from modInverse_returns [OF g _ this]
  obtain d where d: "modInverse 65537 ((p - 1) * (q - 1)) = Inr d"
    by auto
  have "generateKeys fuel bitLength draws =
      Returns \<lparr>publicKey = keyToken 65537 (p * q), privateKey = keyToken d (p * q)\<rparr> draws2"
    using p q e d by (simp add: generateKeys_def bindO_def liftR_def Let_def)
  with e d show ?thesis by blast
qed



theorem exponent_preference_witness:
  "generatePrime 1 (16 / 2)
     (replicate 5 (1 / 10) @ [9 / 10, 9 / 10] @ replicate 10 (7 / 20) @
      [1 / 10, 1 / 10, 1 / 10, 9 / 10, 1 / 10, 1 / 10, 9 / 10] @ replicate 10 (7 / 20))
     = Returns 131 ([1 / 10, 1 / 10, 1 / 10, 9 / 10, 1 / 10, 1 / 10, 9 / 10] @ replicate 10 (7 / 20)) \<and>
   generatePrime 1 (16 / 2) ([1 / 10, 1 / 10, 1 / 10, 9 / 10, 1 / 10, 1 / 10, 9 / 10] @ replicate 10 (7 / 20))
     = Returns 137 [] \<and>
   gcd_RSA 65537 ((131 - 1) * (137 - 1)) = Inr 1 \<and>
   exponent_loop PUBLIC_EXPONENT ((131 - 1) * (137 - 1)) [] = Returns 65537 [] \<and>
   (\<exists>d. modInverse 65537 ((131 - 1) * (137 - 1)) = Inr d \<and>
      generateKeys 1 16
        (replicate 5 (1 / 10) @ [9 / 10, 9 / 10] @ replicate 10 (7 / 20) @
         [1 / 10, 1 / 10, 1 / 10, 9 / 10, 1 / 10, 1 / 10, 9 / 10] @ replicate 10 (7 / 20)) =
      Returns \<lparr>publicKey = keyToken 65537 (131 * 137), privateKey = keyToken d (131 * 137)\<rparr> [])"
proof -
  have p: "generatePrime 1 (16 / 2)
     (replicate 5 (1 / 10) @ [9 / 10, 9 / 10] @ replicate 10 (7 / 20) @
      [1 / 10, 1 / 10, 1 / 10, 9 / 10, 1 / 10, 1 / 10, 9 / 10] @ replicate 10 (7 / 20))
     = Returns 131 ([1 / 10, 1 / 10, 1 / 10, 9 / 10, 1 / 10, 1 / 10, 9 / 10] @ replicate 10 (7 / 20))"
    by code_simp
  have q: "generatePrime 1 (16 / 2) ([1 / 10, 1 / 10, 1 / 10, 9 / 10, 1 / 10, 1 / 10, 9 / 10] @ replicate 10 (7 / 20))
     = Returns 137 []"
    by code_simp
  have g: "gcd_RSA 65537 ((131 - 1) * (137 - 1)) = Inr 1"
    by code_simp
  from p q g exponent_preference [OF p q g] show ?thesis
    by blast
qed


section \<open>Primes and the RSA identity\<close>

lemma is_prime_divisor:
  assumes p: "is_prime p" and d: "d dvd p" and pos: "0 < d"
  shows "d = 1 \<or> d = p"
proof (rule ccontr)
  assume "\<not> (d = 1 \<or> d = p)"
  moreover have "d \<le> p"
    using d p by (intro zdvd_imp_le) (simp_all add: is_prime_def)
  ultimately have "d \<in> set [2..p - 1]"
    using pos by simp
  with p d show False
    by (simp add: is_prime_def)
qed

lemma is_prime_coprime:
  assumes p: "is_prime p" and k: "0 < k" "k < p"
  shows "coprime p k"
proof -
  have g: "gcd p k dvd p" "gcd p k dvd k"
    by simp_all
  have "0 < gcd p k"
    using k by (simp add: gcd_pos_int)
  with is_prime_divisor [OF p g(1)] have "gcd p k = 1 \<or> gcd p k = p"
    by simp
  moreover have "gcd p k \<le> k"
    using g(2) k by (intro zdvd_imp_le) simp_all
  ultimately have "gcd p k = 1"
    using k by simp
  then show ?thesis
    by (simp add: coprime_iff_gcd_eq_1)
qed

lemma is_prime_distinct_coprime:
  assumes p: "is_prime p" and q: "is_prime q" and ne: "p \<noteq> q"
  shows "coprime p q"
proof -
  have pos: "0 < gcd p q"
    using p by (simp add: gcd_pos_int is_prime_def)
  have "gcd p q = 1 \<or> gcd p q = p"
    using is_prime_divisor [OF p _ pos] by simp
  moreover have "gcd p q = 1 \<or> gcd p q = q"
    using is_prime_divisor [OF q _ pos] by simp
  ultimately have "gcd p q = 1"
    using ne by auto
  then show ?thesis
    by (simp add: coprime_iff_gcd_eq_1)
qed

lemma is_prime_dvd_choose:
  assumes p: "is_prime (int p)" and k: "0 < k" "k < p"
  shows "int p dvd int (p choose k)"
proof -
  have "k * (p choose k) = p * ((p - 1) choose (k - 1))"
    using k by (simp add: times_binomial_minus1_eq)
  then have "int k * int (p choose k) = int p * int ((p - 1) choose (k - 1))"
    by (metis of_nat_mult)
  then have "int p dvd int k * int (p choose k)"
    by simp
  moreover have "coprime (int p) (int k)"
    using p k by (intro is_prime_coprime) simp_all
  ultimately show ?thesis
    by (simp add: coprime_dvd_mult_right_iff)
qed

lemma freshman_dream:
  assumes p: "is_prime (int p)"
  shows "((a + 1) ^ p) mod int p = (a ^ p + 1) mod int p"
proof -
  have p1: "1 < p"
    using p by (simp add: is_prime_def)
  have expand: "(a + 1) ^ p = (\<Sum>k\<le>p. int (p choose k) * a ^ k)"
    using binomial_ring [of a 1 p] by simp
  have split: "{..p} = insert 0 (insert p {1..<p})"
    using p1 by auto
  have "(\<Sum>k\<le>p. int (p choose k) * a ^ k) =
      1 + (a ^ p + (\<Sum>k\<in>{1..<p}. int (p choose k) * a ^ k))"
    unfolding split using p1 by simp
  moreover have "int p dvd (\<Sum>k\<in>{1..<p}. int (p choose k) * a ^ k)"
  proof (rule dvd_sum)
    fix k assume "k \<in> {1..<p}"
    then have "int p dvd int (p choose k)"
      using p by (intro is_prime_dvd_choose) simp_all
    then show "int p dvd int (p choose k) * a ^ k"
      by simp
  qed
  ultimately obtain c where "(a + 1) ^ p = (a ^ p + 1) + int p * c"
    unfolding expand by (auto simp: dvd_def)
  then show ?thesis
    by simp
qed

lemma fermat_nat:
  assumes p: "is_prime (int p)"
  shows "(int a) ^ p mod int p = int a mod int p"
proof (induction a)
  case 0
  have "0 < p" using p by (simp add: is_prime_def)
  then show ?case by (simp add: zero_power)
next
  case (Suc a)
  have "(int (Suc a)) ^ p mod int p = ((int a + 1) ^ p) mod int p"
    by (simp add: add.commute)
  also have "\<dots> = ((int a) ^ p + 1) mod int p"
    using p by (rule freshman_dream)
  also have "\<dots> = ((int a) ^ p mod int p + 1) mod int p"
    by (simp add: mod_add_left_eq)
  also have "\<dots> = (int a mod int p + 1) mod int p"
    by (simp only: Suc.IH)
  also have "\<dots> = (int a + 1) mod int p"
    by (rule mod_add_left_eq)
  also have "\<dots> = int (Suc a) mod int p"
    by (simp add: add.commute)
  finally show ?case .
qed

lemma fermat_power:
  assumes p: "is_prime (int p)"
  shows "(int a) ^ (1 + k * (p - 1)) mod int p = int a mod int p"
proof (induction k)
  case 0
  show ?case by simp
next
  case (Suc k)
  have p0: "0 < p" using p by (simp add: is_prime_def)
  then have "1 + Suc k * (p - 1) = k * (p - 1) + p"
    by simp
  then have "(int a) ^ (1 + Suc k * (p - 1)) = (int a) ^ (k * (p - 1)) * (int a) ^ p"
    by (simp only: power_add)
  then have "(int a) ^ (1 + Suc k * (p - 1)) mod int p =
      ((int a) ^ (k * (p - 1)) * ((int a) ^ p mod int p)) mod int p"
    by (simp add: mod_mult_right_eq)
  also have "\<dots> = ((int a) ^ (k * (p - 1)) * (int a mod int p)) mod int p"
    by (simp only: fermat_nat [OF p])
  also have "\<dots> = ((int a) ^ (k * (p - 1)) * int a) mod int p"
    by (simp add: mod_mult_right_eq)
  also have "(int a) ^ (k * (p - 1)) * int a = (int a) ^ (1 + k * (p - 1))"
    by simp
  finally show ?case
    using Suc.IH by simp
qed

lemma rsa_inverts:
  assumes p: "is_prime p" and q: "is_prime q" and ne: "p \<noteq> q"
    and m: "0 \<le> m" "m < p * q"
    and ed: "0 \<le> e" "0 \<le> d" "(e * d) mod ((p - 1) * (q - 1)) = 1"
  shows "m ^ nat (e * d) mod (p * q) = m"
proof -
  define P where "P = nat p"
  define Q where "Q = nat q"
  define M where "M = nat m"
  have pP: "p = int P" and qQ: "q = int Q" and mM: "m = int M"
    using p q m by (simp_all add: P_def Q_def M_def is_prime_def)
  have P1: "1 < P" and Q1: "1 < Q"
    using p q by (simp_all add: P_def Q_def is_prime_def)
  define phi where "phi = (p - 1) * (q - 1)"
  have phi_pos: "0 < phi"
    using p q by (simp add: phi_def is_prime_def)
  have "e * d = phi * ((e * d) div phi) + 1"
    using ed(3) mult_div_mod_eq [of phi "e * d"] by (simp add: phi_def)
  moreover define j where "j = nat ((e * d) div phi)"
  moreover have "0 \<le> (e * d) div phi"
    using ed(1,2) phi_pos by (simp add: pos_imp_zdiv_nonneg_iff)
  ultimately have "e * d = 1 + int j * ((int P - 1) * (int Q - 1))"
    by (simp add: phi_def pP qQ mult.commute)
  also have "\<dots> = int (1 + j * ((P - 1) * (Q - 1)))"
    using P1 Q1 by (simp add: of_nat_diff)
  finally have "nat (e * d) = nat (int (1 + j * ((P - 1) * (Q - 1))))"
    by (rule arg_cong)
  then have x: "nat (e * d) = 1 + j * ((P - 1) * (Q - 1))"
    by (simp only: nat_int)
  have xp: "nat (e * d) = 1 + (j * (Q - 1)) * (P - 1)"
    unfolding x by (simp add: mult_ac)
  have modp: "m ^ nat (e * d) mod p = m mod p"
    unfolding xp pP mM using p unfolding pP by (rule fermat_power)
  have xq: "nat (e * d) = 1 + (j * (P - 1)) * (Q - 1)"
    unfolding x by (simp add: mult_ac)
  have modq: "m ^ nat (e * d) mod q = m mod q"
    unfolding xq qQ mM using q unfolding qQ by (rule fermat_power)
  have "p dvd m ^ nat (e * d) - m"
    using modp by (simp add: mod_eq_dvd_iff)
  moreover have "q dvd m ^ nat (e * d) - m"
    using modq by (simp add: mod_eq_dvd_iff)
  moreover have "coprime p q"
    using p q ne by (rule is_prime_distinct_coprime)
  ultimately have "p * q dvd m ^ nat (e * d) - m"
    by (simp add: divides_mult)
  then have "m ^ nat (e * d) mod (p * q) = m mod (p * q)"
    by (simp add: mod_eq_dvd_iff)
  with m show ?thesis
    by simp
qed


section \<open>The round trip of the tokens and of the cipher\<close>

subsection \<open>Decimal digits\<close>

lemma digit_word: "0 \<le> d \<Longrightarrow> d < 10 \<Longrightarrow> uint (digitChar d) = 48 + d"
  unfolding digitChar_def
  by (subst uint_word_of_int_eq, rule take_bit_int_eq_self) simp_all

lemma digitChar_isDigit: "0 \<le> d \<Longrightarrow> d < 10 \<Longrightarrow> isDigit (digitChar d)"
  by (simp add: isDigit_def digit_word)

lemma decimalDigits_digits: "0 \<le> n \<Longrightarrow> c \<in> set (decimalDigits n) \<Longrightarrow> isDigit c"
proof (induction n arbitrary: c rule: decimalDigits.induct)
  case (1 n)
  show ?case
  proof (cases "n < 10")
    case True
    then have "decimalDigits n = [digitChar n]"
      by (subst decimalDigits.simps) simp
    with 1(2,3) True show ?thesis
      by (simp add: digitChar_isDigit)
  next
    case False
    have "decimalDigits n = decimalDigits (n div 10) @ [digitChar (n mod 10)]"
      using False by (subst decimalDigits.simps) simp
    with 1(3) have "c \<in> set (decimalDigits (n div 10)) \<or> c = digitChar (n mod 10)"
      by auto
    then show ?thesis
    proof
      assume "c \<in> set (decimalDigits (n div 10))"
      with "1.IH" [OF False] 1(2) show ?thesis by simp
    next
      assume "c = digitChar (n mod 10)"
      then show ?thesis
        by (simp add: digitChar_isDigit)
    qed
  qed
qed

lemma decimalDigits_nonempty: "decimalDigits n \<noteq> []"
  by (subst decimalDigits.simps) simp

lemma digitValue_digit: "isDigit c \<Longrightarrow> digitValue c = Some (nat (uint c - 48))"
proof -
  assume "isDigit c"
  then have "48 \<le> unat c" "unat c \<le> 57" "unat c - 48 = nat (uint c - 48)"
    unfolding isDigit_def unat_eq_nat_uint by linarith+
  then show ?thesis
    by (simp add: digitValue_def Let_def)
qed

lemma parseDigits_append:
  "parseDigits radix acc (xs @ ys) =
     (case parseDigits radix acc xs of None \<Rightarrow> None | Some a \<Rightarrow> parseDigits radix a ys)"
  by (induction xs arbitrary: acc) (auto split: option.splits)

lemma parseDigits_decimalDigits:
  "0 \<le> n \<Longrightarrow> parseDigits 10 acc (decimalDigits n) = Some (acc * 10 ^ length (decimalDigits n) + n)"
proof (induction n arbitrary: acc rule: decimalDigits.induct)
  case (1 n)
  have last: "parseDigits 10 a [digitChar d] = Some (a * 10 + d)" if "0 \<le> d" "d < 10" for a d
  proof -
    have "isDigit (digitChar d)"
      using that by (rule digitChar_isDigit)
    then show ?thesis
      using that by (simp add: digitValue_digit digit_word)
  qed
  show ?case
  proof (cases "n < 10")
    case True
    have "decimalDigits n = [digitChar n]"
      using True by (subst decimalDigits.simps) simp
    then show ?thesis
      using last [of n acc] True 1(2) by simp
  next
    case False
    have eq: "decimalDigits n = decimalDigits (n div 10) @ [digitChar (n mod 10)]"
      using False by (subst decimalDigits.simps) simp
    have IH: "parseDigits 10 acc (decimalDigits (n div 10)) =
        Some (acc * 10 ^ length (decimalDigits (n div 10)) + n div 10)"
      using "1.IH" [OF False] 1(2) by simp
    have "parseDigits 10 acc (decimalDigits n) =
        Some ((acc * 10 ^ length (decimalDigits (n div 10)) + n div 10) * 10 + n mod 10)"
      unfolding eq parseDigits_append IH using last [of "n mod 10"] by simp
    also have "(acc * 10 ^ length (decimalDigits (n div 10)) + n div 10) * 10 + n mod 10 =
        acc * 10 ^ length (decimalDigits n) + n"
      unfolding eq by (simp add: algebra_simps)
    finally show ?thesis .
  qed
qed

lemma isDigit_not_space: "isDigit c \<Longrightarrow> \<not> StrWhiteSpaceChar c"
  by (auto simp: isDigit_def StrWhiteSpaceChar_def word_le_def)

lemma trimString_digits:
  assumes "\<forall>c \<in> set s. isDigit c"
  shows "trimString s = s"
proof (cases s)
  case Nil
  then show ?thesis by (simp add: trimString_def)
next
  case (Cons c cs)
  have "last s \<in> set s"
    using Cons by simp
  then have "isDigit (hd s)" "isDigit (last s)"
    using assms Cons by simp_all
  then have first: "\<not> StrWhiteSpaceChar (hd s)" and last: "\<not> StrWhiteSpaceChar (hd (rev s))"
    using Cons hd_rev [of s] by (simp_all only: isDigit_not_space list.simps not_False_eq_True)
  have "dropWhile StrWhiteSpaceChar s = s"
    using first Cons by simp
  moreover have "dropWhile StrWhiteSpaceChar (rev s) = rev s"
    using last Cons by (cases "rev s") simp_all
  ultimately show ?thesis
    by (simp add: trimString_def)
qed

lemma BigInt_string_decimalDigits:
  assumes n: "0 \<le> n"
  shows "BigInt_string (decimalDigits n) = Inr n"
proof -
  have digits: "\<forall>c \<in> set (decimalDigits n). isDigit c"
    using decimalDigits_digits [OF n] by blast
  obtain c cs where eq: "decimalDigits n = c # cs"
    using decimalDigits_nonempty [of n] by (cases "decimalDigits n") auto
  have c: "isDigit c" and cs: "\<forall>x \<in> set cs. isDigit x"
    using digits eq by simp_all
  have not_sign: "c \<noteq> 43" "c \<noteq> 45"
    using c by (auto simp: isDigit_def)
  have not_prefix: "cs \<noteq> [] \<longrightarrow> hd cs \<notin> set [120, 88] \<and> hd cs \<notin> set [111, 79] \<and> hd cs \<notin> set [98, 66]"
  proof
    assume "cs \<noteq> []"
    then have "isDigit (hd cs)"
      using cs by simp
    then show "hd cs \<notin> set [120, 88] \<and> hd cs \<notin> set [111, 79] \<and> hd cs \<notin> set [98, 66]"
      by (auto simp: isDigit_def)
  qed
  have "parseRadix 10 (c # cs) = Inr n"
    using parseDigits_decimalDigits [OF n, of 0] by (simp add: parseRadix_def eq [symmetric] decimalDigits_nonempty)
  then show ?thesis
    using trimString_digits [OF digits] not_sign not_prefix
    by (auto simp: BigInt_string_def eq)
qed

lemma BigInt_string_toString: "0 \<le> n \<Longrightarrow> BigInt_string (bigint_toString n) = Inr n"
  by (simp add: bigint_toString_def BigInt_string_decimalDigits)

subsection \<open>Splitting at commas\<close>

lemma split_nonempty: "split sep s \<noteq> []"
  by (induction s) (auto split: list.splits)

lemma split_no_sep: "sep \<notin> set xs \<Longrightarrow> split sep xs = [xs]"
  by (induction xs) auto

lemma split_append_sep:
  "sep \<notin> set xs \<Longrightarrow> split sep (xs @ sep # rest) = xs # split sep rest"
  by (induction xs) auto

subsection \<open>UTF-8 on ASCII text\<close>

lemma utf8Encode_ascii:
  "\<forall>c \<in> set s. unat c < 128 \<Longrightarrow> utf8Encode s = map (\<lambda>c. of_nat (unat c)) s"
  by (induction s) (simp_all add: Let_def)

lemma utf8Decode_from_ascii:
  "\<forall>b \<in> set bs. unat b < 128 \<Longrightarrow>
   utf8Decode_from 0 0 0 0x80 0xBF bs = map (\<lambda>b. of_nat (unat b)) bs"
  by (induction bs) (simp_all add: Let_def)

lemma ascii_byte:
  assumes "unat (c :: 16 word) < 128"
  shows "unat (of_nat (unat c) :: 8 word) = unat c"
proof -
  have "unat (of_nat (unat c) :: 8 word) = unat c mod 2 ^ LENGTH(8)"
    by (rule unat_of_nat)
  with assms show ?thesis by simp
qed

lemma utf8_round_trip:
  assumes "\<forall>c \<in> set s. unat c < 128"
  shows "utf8Decode (utf8Encode s) = s"
proof -
  have bytes: "\<forall>b \<in> set (map (\<lambda>c. of_nat (unat c) :: 8 word) s). unat b < 128"
    using assms ascii_byte by (auto simp del: of_nat_unat)
  have "utf8Decode (utf8Encode s) = map (\<lambda>b. of_nat (unat b)) (map (\<lambda>c. of_nat (unat c) :: 8 word) s)"
    unfolding utf8Decode_def utf8Encode_ascii [OF assms] using bytes by (rule utf8Decode_from_ascii)
  also have "\<dots> = map (\<lambda>c. c) s"
  proof (unfold map_map comp_def, intro map_cong refl)
    fix c assume "c \<in> set s"
    with assms have "unat (of_nat (unat c) :: 8 word) = unat c"
      by (intro ascii_byte) simp
    then have "(of_nat (unat (of_nat (unat c) :: 8 word)) :: 16 word) = of_nat (unat c)"
      by (rule arg_cong)
    then show "(of_nat (unat (of_nat (unat c) :: 8 word)) :: 16 word) = c"
      by (simp del: of_nat_unat add: of_nat_unat [where 'b = 16])
  qed
  finally show ?thesis by simp
qed

subsection \<open>Base64\<close>

lemma unat_base64Char:
  assumes "i < 64"
  shows "unat (base64Char i) =
     (if i < 26 then 65 + i else if i < 52 then 71 + i else if i < 62 then i - 4
      else if i = 62 then 43 else 47)"
proof -
  have small: "unat (of_nat k :: 16 word) = k" if "k < 65536" for k
  proof -
    have "unat (of_nat k :: 16 word) = k mod 2 ^ LENGTH(16)"
      by (rule unat_of_nat)
    with that show ?thesis by simp
  qed
  consider "i < 26" | "26 \<le> i" "i < 52" | "52 \<le> i" "i < 62" | "i = 62" | "i = 63"
    using assms by linarith
  then show ?thesis
  proof cases
    case 1
    then have "base64Char i = of_nat (65 + i)"
      by (simp only: base64Char_def if_True)
    then show ?thesis
      using 1 small [of "65 + i"] by simp
  next
    case 2
    then have "base64Char i = of_nat (71 + i)"
      unfolding base64Char_def by (simp only: not_less [symmetric] if_False if_True)
    then show ?thesis
      using 2 small [of "71 + i"] by simp
  next
    case 3
    then have "\<not> i < 26" "\<not> i < 52"
      by simp_all
    with 3 have "base64Char i = of_nat (i - 4)"
      unfolding base64Char_def by (simp only: if_False if_True)
    then show ?thesis
      using 3 small [of "i - 4"] by simp
  next
    case 4
    then show ?thesis by (simp add: base64Char_def)
  next
    case 5
    then show ?thesis by (simp add: base64Char_def)
  qed
qed

lemma unbase64_base64Char:
  assumes "i < 64"
  shows "unbase64 (base64Char i) = Some i"
proof -
  consider "i < 26" | "26 \<le> i" "i < 52" | "52 \<le> i" "i < 62" | "i = 62" | "i = 63"
    using assms by linarith
  then show ?thesis
  proof cases
    case 1
    then have "unat (base64Char i) = 65 + i"
      using assms by (simp add: unat_base64Char)
    with 1 show ?thesis by (simp add: unbase64_def Let_def)
  next
    case 2
    then have "unat (base64Char i) = 71 + i"
      using assms by (simp add: unat_base64Char)
    with 2 show ?thesis by (simp add: unbase64_def Let_def)
  next
    case 3
    then have u: "unat (base64Char i) = i - 4"
      using assms by (simp add: unat_base64Char)
    have "48 \<le> i - 4" "i - 4 \<le> 57" "\<not> 65 \<le> i - 4" "\<not> 97 \<le> i - 4" "i - 4 + 4 = i"
      using 3 by linarith+
    then show ?thesis
      unfolding unbase64_def Let_def u by (simp only: if_True if_False simp_thms)
  next
    case 4
    then have "unat (base64Char i) = 43"
      by (simp add: unat_base64Char)
    then show ?thesis using 4 by (simp add: unbase64_def Let_def)
  next
    case 5
    then have "unat (base64Char i) = 47"
      by (simp add: unat_base64Char)
    then show ?thesis using 5 by (simp add: unbase64_def Let_def)
  qed
qed

lemma base64Char_not_pad: "i < 64 \<Longrightarrow> base64Char i \<noteq> 61"
proof
  assume "i < 64" and "base64Char i = 61"
  then have "unat (base64Char i) = 61" by simp
  with \<open>i < 64\<close> show False
    by (simp add: unat_base64Char split: if_splits)
qed

lemma sextets_char:
  "i < 64 \<Longrightarrow> sextetsBeforePad (base64Char i # cs) = i # sextetsBeforePad cs"
  using unbase64_base64Char [of i] base64Char_not_pad [of i] by simp



lemma pack_div: "b < n \<Longrightarrow> (a * n + b) div n = (a::nat)"
  by simp

lemma pack_mod: "b < n \<Longrightarrow> (a * n + b) mod n = (b::nat)"
  by simp

lemma byte_parts:
  fixes x y z :: nat
  assumes "x < 256" "y < 256" "z < 256"
  shows "x div 4 < 64" "x mod 4 * 16 + y div 16 < 64" "y mod 16 * 4 + z div 64 < 64" "z mod 64 < 64"
    "x mod 4 * 16 < 64" "y mod 16 * 4 < 64"
    "x div 4 * 4 + (x mod 4 * 16 + y div 16) div 16 = x"
    "(x mod 4 * 16 + y div 16) mod 16 * 16 + (y mod 16 * 4 + z div 64) div 4 = y"
    "(y mod 16 * 4 + z div 64) mod 4 * 64 + z mod 64 = z"
    "x div 4 * 4 + (x mod 4 * 16) div 16 = x"
    "(x mod 4 * 16 + y div 16) mod 16 * 16 + (y mod 16 * 4) div 4 = y"
proof -
  have xm: "x mod 4 < 4" and ym: "y mod 16 < 16" and zm: "z mod 64 < 64"
    by simp_all
  have yd: "y div 16 < 16" and zd: "z div 64 < 4"
    using assms by simp_all
  show "x div 4 < 64" using assms by simp
  show "x mod 4 * 16 + y div 16 < 64" using xm yd by linarith
  show "y mod 16 * 4 + z div 64 < 64" using ym zd by linarith
  show "z mod 64 < 64" by simp
  show "x mod 4 * 16 < 64" using xm by linarith
  show "y mod 16 * 4 < 64" using ym by linarith
  show "x div 4 * 4 + (x mod 4 * 16 + y div 16) div 16 = x"
    unfolding pack_div [OF yd] by simp
  show "(x mod 4 * 16 + y div 16) mod 16 * 16 + (y mod 16 * 4 + z div 64) div 4 = y"
    unfolding pack_mod [OF yd] pack_div [OF zd] by simp
  show "(y mod 16 * 4 + z div 64) mod 4 * 64 + z mod 64 = z"
    unfolding pack_mod [OF zd] by simp
  show "x div 4 * 4 + (x mod 4 * 16) div 16 = x"
    by simp
  show "(x mod 4 * 16 + y div 16) mod 16 * 16 + (y mod 16 * 4) div 4 = y"
    unfolding pack_mod [OF yd] by simp
qed



lemma sextets_pad: "sextetsBeforePad (61 # cs) = []"
  by simp

lemma base64_round_trip: "bufferFromBase64 (base64Encode bs) = bs"
proof -
  have "sextetsToBytes (sextetsBeforePad (base64Encode bs)) = bs"
  proof (induction bs rule: base64Encode.induct)
    case 1
    show ?case by simp
  next
    case (2 a)
    have x: "unat a < 256"
      using unsigned_less [of a] by simp
    note p = byte_parts [OF x x x]
    have "sextetsBeforePad (base64Encode [a]) = [unat a div 4, unat a mod 4 * 16]"
      by (simp add: Let_def sextets_char sextets_pad p del: sextetsBeforePad.simps)
    then show ?case
      by (simp only: sextetsToBytes.simps p of_nat_unat ucast_id)
  next
    case (3 a b)
    have x: "unat a < 256" and y: "unat b < 256"
      using unsigned_less [of a] unsigned_less [of b] by simp_all
    note p = byte_parts [OF x y y]
    have "sextetsBeforePad (base64Encode [a, b]) =
        [unat a div 4, unat a mod 4 * 16 + unat b div 16, unat b mod 16 * 4]"
      by (simp add: Let_def sextets_char sextets_pad p del: sextetsBeforePad.simps)
    then show ?case
      by (simp only: sextetsToBytes.simps p of_nat_unat ucast_id)
  next
    case (4 a b c rest)
    have x: "unat a < 256" and y: "unat b < 256" and z: "unat c < 256"
      using unsigned_less [of a] unsigned_less [of b] unsigned_less [of c] by simp_all
    note p = byte_parts [OF x y z]
    have "sextetsBeforePad (base64Encode (a # b # c # rest)) =
        unat a div 4 # (unat a mod 4 * 16 + unat b div 16) #
        (unat b mod 16 * 4 + unat c div 64) # unat c mod 64 #
        sextetsBeforePad (base64Encode rest)"
      by (simp add: Let_def sextets_char p del: sextetsBeforePad.simps)
    then show ?case
      using "4.IH" by (simp only: sextetsToBytes.simps p of_nat_unat ucast_id append.simps)
  qed
  then show ?thesis
    by (simp add: bufferFromBase64_def)
qed

subsection \<open>Key tokens\<close>

lemma ascii_comma: "ascii '','' = [44]"
  by (simp add: ascii_def)

lemma isDigit_ascii: "isDigit c \<Longrightarrow> unat c < 128"
  unfolding isDigit_def unat_eq_nat_uint by linarith

lemma isDigit_not_comma: "isDigit c \<Longrightarrow> c \<noteq> 44"
  by (auto simp: isDigit_def)

lemma toString_digits: "0 \<le> n \<Longrightarrow> \<forall>c \<in> set (bigint_toString n). isDigit c"
  using decimalDigits_digits by (auto simp: bigint_toString_def)

lemma toString_no_comma: "0 \<le> n \<Longrightarrow> 44 \<notin> set (bigint_toString n)"
  using toString_digits isDigit_not_comma by blast

lemma keyFields_keyToken:
  assumes x: "0 \<le> x" and n: "0 \<le> n"
  shows "keyFields (keyToken x n) = Inr (Some x, Some n)"
proof -
  define t where "t = bigint_toString x @ ascii '','' @ bigint_toString n"
  have ascii: "\<forall>c \<in> set t. unat c < 128"
    using toString_digits [OF x] toString_digits [OF n] isDigit_ascii
    by (auto simp: t_def ascii_comma)
  have "utf8Decode (bufferFromBase64 (keyToken x n)) = t"
    unfolding keyToken_def t_def [symmetric] base64_round_trip
    using ascii by (rule utf8_round_trip)
  moreover have "split 44 t = [bigint_toString x, bigint_toString n]"
    unfolding t_def ascii_comma
    using split_append_sep [OF toString_no_comma [OF x], of "bigint_toString n"]
      split_no_sep [OF toString_no_comma [OF n]] by simp
  moreover have "mapBigInt [bigint_toString x, bigint_toString n] = Inr [x, n]"
    using x n by (simp add: BigInt_string_toString)
  ultimately show ?thesis
    by (simp add: keyFields_def bindR_def)
qed

subsection \<open>The ciphertext token\<close>

lemma split_units:
  assumes "units \<noteq> []" and "\<forall>u \<in> set units. 0 \<le> u"
  shows "split 44 (butlast (concat (map (\<lambda>u. bigint_toString u @ ascii '','') units))) =
           map bigint_toString units"
  using assms
proof (induction units)
  case Nil
  then show ?case by simp
next
  case (Cons u units)
  have u: "44 \<notin> set (bigint_toString u)"
    using Cons.prems by (intro toString_no_comma) simp
  show ?case
  proof (cases "units = []")
    case True
    then show ?thesis
      using split_no_sep [OF u] by (simp add: ascii_comma butlast_append)
  next
    case False
    then obtain v vs where units: "units = v # vs"
      by (cases units) auto
    define rest where "rest = concat (map (\<lambda>u. bigint_toString u @ ascii '','') units)"
    have rest_ne: "rest \<noteq> []"
      unfolding rest_def units by (simp add: ascii_comma)
    have "concat (map (\<lambda>u. bigint_toString u @ ascii '','') (u # units)) =
        (bigint_toString u @ [44]) @ rest"
      by (simp add: rest_def ascii_comma)
    then have "butlast (concat (map (\<lambda>u. bigint_toString u @ ascii '','') (u # units))) =
        bigint_toString u @ 44 # butlast rest"
      using rest_ne by (simp add: butlast_append)
    moreover have "split 44 (butlast rest) = map bigint_toString units"
      unfolding rest_def using Cons.IH [OF False] Cons.prems(2) by simp
    ultimately show ?thesis
      using split_append_sep [OF u, of "butlast rest"] by simp
  qed
qed

lemma mapBigInt_toString:
  "\<forall>u \<in> set units. 0 \<le> u \<Longrightarrow> mapBigInt (map bigint_toString units) = Inr units"
  by (induction units) (simp_all add: BigInt_string_toString)

lemma fromCharCode_uint: "fromCharCode (Number_bigint (uint (c :: 16 word))) = c"
proof -
  have "uint c < 2 ^ 16"
    using uint_bounded [of c] by simp
  then have "\<bar>uint c\<bar> < 2 ^ 53"
    by simp
  then show ?thesis
    by (simp add: Number_bigint_small fromCharCode_def)
qed

lemma decrypt_loop_units:
  assumes "\<forall>c \<in> set message. modPow (f c) d n = Inr (uint c)"
  shows "decrypt_loop (Some d) (Some n) (map f message) acc = Inr (acc @ message)"
  using assms
proof (induction message arbitrary: acc)
  case Nil
  show ?case by simp
next
  case (Cons c message)
  then show ?case
    by (simp add: modPow_fields_def fromCharCode_uint)
qed

subsection \<open>The draws a run leaves\<close>

lemma randomBits_loop_rest:
  "randomBits_loop bitLength i randomBits draws = Returns v rest \<Longrightarrow> set rest \<subseteq> set draws"
proof (induction bitLength i randomBits draws rule: randomBits_loop.induct)
  case (1 bitLength i randomBits draws)
  show ?case
  proof (cases "real i < bitLength")
    case False
    with 1(2) show ?thesis
      by (subst (asm) randomBits_loop.simps) simp
  next
    case True
    show ?thesis
    proof (cases draws)
      case Nil
      with True 1(2) show ?thesis
        by (subst (asm) randomBits_loop.simps) simp
    next
      case (Cons u us)
      with True 1(2) have "randomBits_loop bitLength (i + 1)
          (randomBits @ (if u < 0.5 then ascii ''0'' else ascii ''1'')) us = Returns v rest"
        by (subst (asm) randomBits_loop.simps) simp
      from "1.IH" [OF True Cons this] Cons show ?thesis
        by auto
    qed
  qed
qed

lemma generateRandomOddNumber_rest:
  "generateRandomOddNumber bitLength draws = Returns v rest \<Longrightarrow> set rest \<subseteq> set draws"
  using randomBits_loop_rest
  by (fastforce simp: generateRandomOddNumber_def bindO_def liftR_def split: outcome.splits sum.splits)

lemma rounds_loop_rest:
  "rounds_loop n r s i k draws = Returns v rest \<Longrightarrow> set rest \<subseteq> set draws"
proof (induction n r s i k draws rule: rounds_loop.induct)
  case (1 n r s i k draws)
  show ?case
  proof (cases "i < k")
    case False
    with 1(2) show ?thesis
      by (subst (asm) rounds_loop.simps) simp
  next
    case True
    show ?thesis
    proof (cases draws)
      case Nil
      with True 1(2) show ?thesis
        by (subst (asm) rounds_loop.simps) simp
    next
      case (Cons u us)
      show ?thesis
      proof (cases "millerRabinRound n r s u")
        case (Inl err)
        with True Cons 1(2) show ?thesis
          by (subst (asm) rounds_loop.simps) simp
      next
        case (Inr ok)
        show ?thesis
        proof (cases ok)
          case True
          with \<open>i < k\<close> Cons Inr 1(2) have "rounds_loop n r s (i + 1) k us = Returns v rest"
            by (subst (asm) rounds_loop.simps) simp
          from "1.IH" [OF \<open>i < k\<close> Cons Inr True this] Cons show ?thesis
            by auto
        next
          case False
          with \<open>i < k\<close> Cons Inr 1(2) have "rest = us"
            by (subst (asm) rounds_loop.simps) simp
          with Cons show ?thesis by auto
        qed
      qed
    qed
  qed
qed

lemma millerRabin_rest:
  "millerRabinPrimalityTest n k draws = Returns v rest \<Longrightarrow> set rest \<subseteq> set draws"
  using rounds_loop_rest
  by (fastforce simp: millerRabinPrimalityTest_def split: if_splits option.splits)

lemma generatePrime_rest:
  "generatePrime fuel bitLength draws = Returns p rest \<Longrightarrow> set rest \<subseteq> set draws"
proof (induction fuel arbitrary: draws)
  case 0
  then show ?case by simp
next
  case (Suc fuel)
  from Suc.prems obtain prime draws1 ok draws2 where
    cand: "generateRandomOddNumber bitLength draws = Returns prime draws1" and
    mr: "millerRabinPrimalityTest prime 10 draws1 = Returns ok draws2" and
    rest: "(if \<not> ok then generatePrime fuel bitLength draws2 else Returns prime draws2) = Returns p rest"
    by (auto simp: bindO_def split: outcome.splits)
  have sub: "set draws2 \<subseteq> set draws"
    using generateRandomOddNumber_rest [OF cand] millerRabin_rest [OF mr] by blast
  show ?case
  proof (cases ok)
    case True
    with rest sub show ?thesis by simp
  next
    case False
    with rest have "generatePrime fuel bitLength draws2 = Returns p rest" by simp
    from Suc.IH [OF this] sub show ?thesis by blast
  qed
qed

subsection \<open>The exponent loop\<close>

lemma Number_bigint_nonneg:
  assumes x: "0 \<le> x" and N: "Number_bigint x = Some N"
  shows "0 \<le> N"
proof (cases "\<bar>x\<bar> < 2 ^ 53")
  case True
  with N x show ?thesis
    by (simp add: Number_bigint_def)
next
  case False
  define k where "k = nat (bitlen \<bar>x\<bar> - 53)"
  define q where "q = \<bar>x\<bar> div 2 ^ k"
  define q' where "q' = (if 2 ^ (k - 1) < \<bar>x\<bar> mod 2 ^ k \<or>
      (\<bar>x\<bar> mod 2 ^ k = 2 ^ (k - 1) \<and> odd q) then q + 1 else q)"
  have "0 \<le> q"
    by (simp add: q_def pos_imp_zdiv_nonneg_iff)
  then have "0 \<le> q'"
    by (simp add: q'_def)
  then have nonneg: "0 \<le> sgn x * (q' * 2 ^ k)"
    using x by (simp add: sgn_if)
  from N False have "N = sgn x * (q' * 2 ^ k)"
    unfolding Number_bigint_def Let_def k_def [symmetric] q_def [symmetric] q'_def [symmetric]
    by (simp split: if_splits)
  with nonneg show ?thesis by simp
qed

lemma randomBelow_nonneg:
  assumes "0 \<le> u" and "0 \<le> x" and "randomBelow u x = Inr e"
  shows "0 \<le> e"
proof -
  from assms(3) obtain N where N: "Number_bigint x = Some N" and e: "e = \<lfloor>u * of_int N\<rfloor>"
    by (auto simp: randomBelow_def split: option.splits)
  have "0 \<le> N"
    using assms(2) N by (rule Number_bigint_nonneg)
  with assms(1) show ?thesis
    unfolding e by simp
qed

lemma exponent_loop_result:
  "exponent_loop e0 phi draws = Returns e rest \<Longrightarrow> 0 \<le> e0 \<Longrightarrow> 0 \<le> phi \<Longrightarrow>
   \<forall>u \<in> set draws. 0 \<le> u \<Longrightarrow> 0 \<le> e \<and> gcd_RSA e phi = Inr 1"
proof (induction e0 phi draws rule: exponent_loop.induct)
  case (1 e0 phi draws)
  obtain g where g: "gcd_RSA e0 phi = Inr g"
    using 1(2) by (subst (asm) exponent_loop.simps) (auto split: sum.splits)
  show ?case
  proof (cases "g = 1")
    case True
    with g 1(2) have "e = e0"
      by (subst (asm) exponent_loop.simps) simp
    with g True 1(3) show ?thesis by simp
  next
    case False
    with g 1(2) obtain u us e' where draws: "draws = u # us"
      and e': "randomBelow u phi = Inr e'"
      and run: "exponent_loop e' phi us = Returns e rest"
      by (subst (asm) exponent_loop.simps) (auto split: list.splits sum.splits)
    have "0 \<le> u" using 1(5) draws by simp
    then have "0 \<le> e'"
      using 1(4) e' by (rule randomBelow_nonneg)
    moreover have "\<forall>u \<in> set us. 0 \<le> u"
      using 1(5) draws by simp
    ultimately show ?thesis
      using "1.IH" [OF g False draws e' run] 1(4) by simp
  qed
qed

lemma decrypt_unit:
  assumes p: "is_prime p" and q: "is_prime q" and ne: "p \<noteq> q"
    and e: "0 < e" and d: "0 < d" and ed: "(e * d) mod ((p - 1) * (q - 1)) = 1"
    and c: "uint c < p * q"
  shows "modPow (cipherUnit (Some e) (p * q) c) d (p * q) = Inr (uint c)"
proof -
  define n where "n = p * q"
  have n: "1 < n"
    using p q unfolding n_def is_prime_def by (simp add: less_1_mult)
  have unit: "cipherUnit (Some e) n c = uint c ^ nat e mod n"
    using e by (simp add: cipherUnit_def)
  have "modPow (uint c ^ nat e mod n) d n = Inr ((uint c ^ nat e mod n) ^ nat d mod n)"
    using n d by (subst modPow_nonneg) simp_all
  also have "(uint c ^ nat e mod n) ^ nat d mod n = (uint c ^ nat e) ^ nat d mod n"
    by (rule power_mod)
  also have "(uint c ^ nat e) ^ nat d = uint c ^ nat (e * d)"
    using e d by (simp add: power_mult [symmetric] nat_mult_distrib)
  also have "uint c ^ nat (e * d) mod n = uint c"
    unfolding n_def using p q ne _ c _ _ ed by (rule rsa_inverts) (use e d in simp_all)
  finally have "modPow (uint c ^ nat e mod n) d n = Inr (uint c)" .
  then have "modPow (cipherUnit (Some e) n c) d n = Inr (uint c)"
    by (simp only: unit)
  then show ?thesis
    by (simp only: n_def)
qed

text \<open>
  Claim C1, amended. Let every draw of \<open>Math.random()\<close> lie in \<open>[0, 1)\<close>, let the two calls
  of \<open>generatePrime\<close> inside \<open>generateKeys\<close> return distinct primes \<open>p\<close> and \<open>q\<close>, and let
  \<open>generateKeys\<close> return a key pair. Then both tokens decode to the modulus \<open>p * q\<close>, and for
  every non-empty message whose code units are all below \<open>p * q\<close>, decrypting the encryption
  of the message returns the message.
\<close>

theorem round_trip:
  assumes draws: "\<forall>u \<in> set draws. 0 \<le> u \<and> u < 1"
    and p: "generatePrime fuel (bitLength / 2) draws = Returns p draws1"
    and q: "generatePrime fuel (bitLength / 2) draws1 = Returns q draws2"
    and keys: "generateKeys fuel bitLength draws = Returns keys rest"
    and primes: "is_prime p" "is_prime q" "p \<noteq> q"
    and message: "message \<noteq> []" "\<forall>c \<in> set message. uint c < p * q"
  shows "\<exists>e d. keyFields (publicKey keys) = Inr (Some e, Some (p * q)) \<and>
           keyFields (privateKey keys) = Inr (Some d, Some (p * q)) \<and>
           bindR (encryptWorker message (publicKey keys))
             (\<lambda>encrypted. decryptWorker encrypted (privateKey keys)) = Inr message"
proof -
  define n where "n = p * q"
  define phi where "phi = (p - 1) * (q - 1)"
  have p2: "2 \<le> p" and q2: "2 \<le> q"
    using primes by (simp_all add: is_prime_def)
  have n1: "1 < n"
    unfolding n_def using p2 q2 by (simp add: less_1_mult)
  have "3 \<le> p \<or> 3 \<le> q"
    using p2 q2 primes(3) by linarith
  then have "2 \<le> (p - 1) * (q - 1)"
  proof
    assume "3 \<le> p"
    then have "2 * 1 \<le> (p - 1) * (q - 1)"
      using q2 by (intro mult_mono) simp_all
    then show ?thesis by simp
  next
    assume "3 \<le> q"
    then have "1 * 2 \<le> (p - 1) * (q - 1)"
      using p2 by (intro mult_mono) simp_all
    then show ?thesis by simp
  qed
  then have phi1: "1 < phi"
    by (simp add: phi_def)
  have "generateKeys fuel bitLength draws =
      (case exponent_loop PUBLIC_EXPONENT phi draws2 of
         Returns e draws3 \<Rightarrow>
           (case modInverse e phi of
              Inl err \<Rightarrow> Throws err
            | Inr d \<Rightarrow> Returns \<lparr>publicKey = keyToken e n, privateKey = keyToken d n\<rparr> draws3)
       | Throws err \<Rightarrow> Throws err
       | Starved \<Rightarrow> Starved)"
    by (simp add: generateKeys_def p q bindO_def liftR_def Let_def n_def phi_def
        split: outcome.splits sum.splits)
  with keys obtain e draws3 d where
    run: "exponent_loop PUBLIC_EXPONENT phi draws2 = Returns e draws3" and
    inv: "modInverse e phi = Inr d" and
    pair: "keys = \<lparr>publicKey = keyToken e n, privateKey = keyToken d n\<rparr>"
    by (auto split: outcome.splits sum.splits)
  have "set draws2 \<subseteq> set draws"
    using generatePrime_rest [OF p] generatePrime_rest [OF q] by blast
  with draws have draws2: "\<forall>u \<in> set draws2. 0 \<le> u"
    by auto
  have e0: "0 \<le> e" and g: "gcd_RSA e phi = Inr 1"
    using exponent_loop_result [OF run _ _ draws2] phi1 by (simp_all add: PUBLIC_EXPONENT_def)
  have gcd1: "gcd e phi = 1"
    using gcd_RSA_nonneg [of e phi] e0 phi1 g by simp
  have "e \<noteq> 0"
    using gcd1 phi1 by auto
  with e0 have e1: "1 \<le> e" by simp
  have "coprime e phi"
    using gcd1 by (simp add: coprime_iff_gcd_eq_1)
  from modInverse_positive [OF this e1 phi1] inv
  have d0: "0 \<le> d" and ed: "(e * d) mod phi = 1"
    by auto
  have "d \<noteq> 0"
    using ed phi1 by auto
  with d0 have d1: "0 < d" by simp
  have pub: "keyFields (publicKey keys) = Inr (Some e, Some n)"
    and priv: "keyFields (privateKey keys) = Inr (Some d, Some n)"
    using e0 d0 n1 by (simp_all add: pair keyFields_keyToken)
  define units where "units = map (cipherUnit (Some e) n) message"
  have units_ne: "units \<noteq> []" and units_pos: "\<forall>u \<in> set units. 0 \<le> u"
    using message(1) cipherUnit_range [OF n1] by (auto simp: units_def)
  have "encrypt_loop (Some e) (Some n) message [] =
      Inr (concat (map (\<lambda>c. bigint_toString (cipherUnit (Some e) n c) @ ascii '','') message))"
    using encrypt_loop_units [OF n1, of "Some e" message "[]"] by simp
  then have enc: "encryptWorker message (publicKey keys) =
      Inr (butlast (concat (map (\<lambda>u. bigint_toString u @ ascii '','') units)))"
    using pub by (simp add: encryptWorker_def bindR_def units_def comp_def)
  have fields: "mapBigInt (split 44 (butlast (concat (map (\<lambda>u. bigint_toString u @ ascii '','') units)))) =
      Inr units"
    unfolding split_units [OF units_ne units_pos] using units_pos by (rule mapBigInt_toString)
  have "\<forall>c \<in> set message. modPow (cipherUnit (Some e) n c) d n = Inr (uint c)"
  proof
    fix c assume "c \<in> set message"
    with message(2) have "uint c < p * q" by simp
    with primes e1 d1 ed show "modPow (cipherUnit (Some e) n c) d n = Inr (uint c)"
      unfolding n_def phi_def by (intro decrypt_unit) simp_all
  qed
  then have "decrypt_loop (Some d) (Some n) units [] = Inr message"
    unfolding units_def using decrypt_loop_units [of message "cipherUnit (Some e) n" d n "[]"] by simp
  then have dec: "decryptWorker (butlast (concat (map (\<lambda>u. bigint_toString u @ ascii '','') units)))
      (privateKey keys) = Inr message"
    using priv fields by (simp add: decryptWorker_def bindR_def)
  have "bindR (encryptWorker message (publicKey keys))
      (\<lambda>encrypted. decryptWorker encrypted (privateKey keys)) = Inr message"
    using enc dec by (simp add: bindR_def)
  with pub priv show ?thesis
    unfolding n_def by blast
qed

theorem round_trip_witness:
  "list_all (\<lambda>u :: real. 0 \<le> u \<and> u < 1)
     (replicate 5 (1 / 10) @ [9 / 10, 9 / 10] @ replicate 10 (7 / 20) @
      [1 / 10, 1 / 10, 1 / 10, 9 / 10, 1 / 10, 1 / 10, 9 / 10] @ replicate 10 (7 / 20)) \<and>
   generatePrime 1 (16 / 2)
     (replicate 5 (1 / 10) @ [9 / 10, 9 / 10] @ replicate 10 (7 / 20) @
      [1 / 10, 1 / 10, 1 / 10, 9 / 10, 1 / 10, 1 / 10, 9 / 10] @ replicate 10 (7 / 20))
     = Returns 131 ([1 / 10, 1 / 10, 1 / 10, 9 / 10, 1 / 10, 1 / 10, 9 / 10] @ replicate 10 (7 / 20)) \<and>
   generatePrime 1 (16 / 2) ([1 / 10, 1 / 10, 1 / 10, 9 / 10, 1 / 10, 1 / 10, 9 / 10] @ replicate 10 (7 / 20))
     = Returns 137 [] \<and>
   generateKeys 1 16
     (replicate 5 (1 / 10) @ [9 / 10, 9 / 10] @ replicate 10 (7 / 20) @
      [1 / 10, 1 / 10, 1 / 10, 9 / 10, 1 / 10, 1 / 10, 9 / 10] @ replicate 10 (7 / 20))
     = Returns \<lparr>publicKey = keyToken 65537 17947, privateKey = keyToken 12113 17947\<rparr> [] \<and>
   is_prime 131 \<and> is_prime 137 \<and> (131 :: int) \<noteq> 137 \<and> ascii ''Hi'' \<noteq> [] \<and>
   list_all (\<lambda>c. uint c < 131 * 137) (ascii ''Hi'') \<and>
   bindR (encryptWorker (ascii ''Hi'') (keyToken 65537 17947))
     (\<lambda>encrypted. decryptWorker encrypted (keyToken 12113 17947)) = Inr (ascii ''Hi'')"
proof -
  define D1 :: "real list" where
    "D1 = [1 / 10, 1 / 10, 1 / 10, 9 / 10, 1 / 10, 1 / 10, 9 / 10] @ replicate 10 (7 / 20)"
  define D :: "real list" where
    "D = replicate 5 (1 / 10) @ [9 / 10, 9 / 10] @ replicate 10 (7 / 20) @ D1"
  have draws: "list_all (\<lambda>u :: real. 0 \<le> u \<and> u < 1) D"
    unfolding D_def D1_def by code_simp
  have p: "generatePrime 1 (16 / 2) D = Returns 131 D1"
    unfolding D_def D1_def by code_simp
  have q: "generatePrime 1 (16 / 2) D1 = Returns 137 []"
    unfolding D1_def by code_simp
  have keys: "generateKeys 1 16 D =
      Returns \<lparr>publicKey = keyToken 65537 17947, privateKey = keyToken 12113 17947\<rparr> []"
    unfolding D_def D1_def by code_simp
  have p131: "is_prime 131" by code_simp
  have p137: "is_prime 137" by code_simp
  have ne: "(131 :: int) \<noteq> 137" by simp
  have m1: "ascii ''Hi'' \<noteq> []" by (simp add: ascii_def)
  have m2: "list_all (\<lambda>c. uint c < 131 * 137) (ascii ''Hi'')" by code_simp
  have draws': "\<forall>u \<in> set D. 0 \<le> u \<and> u < 1"
    using draws by (simp only: list_all_iff)
  have m2': "\<forall>c \<in> set (ascii ''Hi''). uint c < 131 * 137"
    using m2 by (simp only: list_all_iff)
  from round_trip [OF draws' p q keys p131 p137 ne m1 m2']
  have rt: "bindR (encryptWorker (ascii ''Hi'') (keyToken 65537 17947))
     (\<lambda>encrypted. decryptWorker encrypted (keyToken 12113 17947)) = Inr (ascii ''Hi'')"
    by (simp only: keypair.simps) blast
  show ?thesis
    using draws p q keys p131 p137 ne m1 m2 rt unfolding D_def D1_def by blast
qed

text \<open>
  Claim C1 as stated covers every key pair \<open>generateKeys\<close> returns and every plaintext
  below the modulus. Three runs for the bit length \<open>16\<close>, with draws in \<open>[0, 1)\<close>: when all ten
  witnesses of the test are \<open>n - 1\<close>, the composite \<open>129 = 3 * 43\<close> passes as a prime, and with
  \<open>q = 131\<close> the letter \<open>A\<close> (code unit \<open>65\<close>) comes back as the code unit \<open>3995\<close>; when both
  primes are \<open>131\<close>, \<open>A\<close> comes back as \<open>9628\<close>; and with the primes \<open>131\<close> and \<open>137\<close> the empty
  plaintext comes back as the one character with code unit \<open>0\<close>.
\<close>

theorem round_trip_counterexample:
  "list_all (\<lambda>u :: real. 0 \<le> u \<and> u < 1)
     (replicate 6 (1 / 10) @ [9 / 10] @ replicate 10 (19 / 20) @
      replicate 5 (1 / 10) @ [9 / 10, 9 / 10] @ replicate 10 (7 / 20)) \<and>
   generateKeys 1 16
     (replicate 6 (1 / 10) @ [9 / 10] @ replicate 10 (19 / 20) @
      replicate 5 (1 / 10) @ [9 / 10, 9 / 10] @ replicate 10 (7 / 20))
     = Returns \<lparr>publicKey = keyToken 65537 (129 * 131), privateKey = keyToken 6913 (129 * 131)\<rparr> [] \<and>
   list_all (\<lambda>c. uint c < 129 * 131) (ascii ''A'') \<and>
   bindR (encryptWorker (ascii ''A'') (keyToken 65537 (129 * 131)))
     (\<lambda>encrypted. decryptWorker encrypted (keyToken 6913 (129 * 131))) = Inr [3995] \<and>
   ascii ''A'' = [65] \<and>
   generateKeys 1 16
     (replicate 5 (1 / 10) @ [9 / 10, 9 / 10] @ replicate 10 (7 / 20) @
      replicate 5 (1 / 10) @ [9 / 10, 9 / 10] @ replicate 10 (7 / 20))
     = Returns \<lparr>publicKey = keyToken 65537 (131 * 131), privateKey = keyToken 9773 (131 * 131)\<rparr> [] \<and>
   bindR (encryptWorker (ascii ''A'') (keyToken 65537 (131 * 131)))
     (\<lambda>encrypted. decryptWorker encrypted (keyToken 9773 (131 * 131))) = Inr [9628] \<and>
   generateKeys 1 16
     (replicate 5 (1 / 10) @ [9 / 10, 9 / 10] @ replicate 10 (7 / 20) @
      [1 / 10, 1 / 10, 1 / 10, 9 / 10, 1 / 10, 1 / 10, 9 / 10] @ replicate 10 (7 / 20))
     = Returns \<lparr>publicKey = keyToken 65537 (131 * 137), privateKey = keyToken 12113 (131 * 137)\<rparr> [] \<and>
   bindR (encryptWorker [] (keyToken 65537 (131 * 137)))
     (\<lambda>encrypted. decryptWorker encrypted (keyToken 12113 (131 * 137))) = Inr [0]"
proof (intro conjI)
qed code_simp+

end
